theory Spec2Isabelle
  imports Complex_Main "HOL-Library.Multiset" "HOL-Library.List_Lexorder" "HOL-Library.Char_ord"
begin

section \<open>JavaScript values used by the movers pipeline\<close>

text \<open>
  Strings are lists of 8-bit characters. The functions \<open>trim\<close> and \<open>toLowerCase\<close>
  below are the ASCII part of the runtime's functions (other characters pass through
  unchanged); the query resolution uses them, and the examples take them as the runtime.
  The loops over the remote data, where the transition filter compares status names, take
  \<open>String.prototype.trim\<close> and \<open>String.prototype.toLowerCase\<close> from the runtime (the
  record \<open>runtime\<close> below).
  A value that may be \<open>null\<close> or \<open>undefined\<close> is an \<open>option\<close>, and it is truthy when
  it is a non-empty string. A JavaScript number that may be \<open>NaN\<close> is an \<open>option\<close> with
  \<open>None\<close> for \<open>NaN\<close>: of an \<open>int\<close> for instants and parsed integers, of a \<open>rat\<close> for the
  concurrency setting.
\<close>

definition truthy :: "string option \<Rightarrow> bool" where
  "truthy v = (case v of None \<Rightarrow> False | Some s \<Rightarrow> s \<noteq> [])"

definition or_empty :: "string option \<Rightarrow> string" where
  "or_empty v = (case v of None \<Rightarrow> [] | Some s \<Rightarrow> s)"

definition is_space :: "char \<Rightarrow> bool" where
  "is_space c = (of_char c \<in> {9, 10, 11, 12, 13, 32 :: nat})"

definition trim :: "string \<Rightarrow> string" where
  "trim s = rev (dropWhile is_space (rev (dropWhile is_space s)))"

definition is_upper :: "char \<Rightarrow> bool" where
  "is_upper c = (65 \<le> (of_char c :: nat) \<and> (of_char c :: nat) \<le> 90)"

definition lower_char :: "char \<Rightarrow> char" where
  "lower_char c = (if is_upper c then char_of (of_char c + (32 :: nat)) else c)"

definition toLowerCase :: "string \<Rightarrow> string" where
  "toLowerCase s = map lower_char s"

definition is_digit :: "char \<Rightarrow> bool" where
  "is_digit c = (48 \<le> (of_char c :: nat) \<and> (of_char c :: nat) \<le> 57)"

text \<open>The regular expression \<open>/^\d+$/\<close>.\<close>

definition all_digits :: "string \<Rightarrow> bool" where
  "all_digits s = (s \<noteq> [] \<and> list_all is_digit s)"

definition is_ascii :: "string \<Rightarrow> bool" where
  "is_ascii s = list_all (\<lambda>c. (of_char c :: nat) < 128) s"

definition startsWith :: "string \<Rightarrow> string \<Rightarrow> bool" where
  "startsWith s p = (take (length p) s = p)"

definition endsWith :: "string \<Rightarrow> string \<Rightarrow> bool" where
  "endsWith s p = (length p \<le> length s \<and> drop (length s - length p) s = p)"

text \<open>\<open>a < b\<close> and \<open>a > b\<close> on numbers: false as soon as one side is \<open>NaN\<close>.\<close>

definition js_lt :: "int option \<Rightarrow> int option \<Rightarrow> bool" where
  "js_lt a b = (case a of None \<Rightarrow> False | Some x \<Rightarrow> (case b of None \<Rightarrow> False | Some y \<Rightarrow> x < y))"

definition js_gt :: "int option \<Rightarrow> int option \<Rightarrow> bool" where
  "js_gt a b = (case a of None \<Rightarrow> False | Some x \<Rightarrow> (case b of None \<Rightarrow> False | Some y \<Rightarrow> x > y))"

text \<open>
  Two characters that are the same letter up to case, and two strings that are equal
  up to the case of their letters: the reading of "case-insensitive exact match" that the
  comparison of lowered strings is checked against.
\<close>

definition same_letter :: "char \<Rightarrow> char \<Rightarrow> bool" where
  "same_letter a b = (a = b \<or> (is_upper a \<and> lower_char a = b) \<or> (is_upper b \<and> lower_char b = a))"

definition ci_equal :: "string \<Rightarrow> string \<Rightarrow> bool" where
  "ci_equal a b = list_all2 same_letter a b"

section \<open>The remote data: changelog pages\<close>

text \<open>
  The JSON of the remote API with the fields that the loops read. \<open>None\<close> is a field that
  is \<open>null\<close> or missing and, for \<open>values\<close> and \<open>items\<close>, a value that is not an array.
  The \<open>field\<close> of an item and the \<open>created\<close> of a history entry are strings.

  The key \<open>toString\<close> is the exception: on an object that does not have the key,
  \<open>it.toString\<close> is the inherited \<open>Object.prototype.toString\<close>, a function
  (\<open>Inherited\<close>); \<open>Own None\<close> is the key with the value \<open>null\<close>.
\<close>

datatype 'a property = Inherited | Own 'a

record item =
  field :: string
  fromString :: "string option"
  toString :: "string option property"

record author =
  displayName :: "string option"
  name :: "string option"
  accountId :: "string option"

record history =
  author :: "author option"
  created :: string
  items :: "item list option"

record changelog =
  log_total :: "int option"
  log_values :: "history list option"

record issue =
  issue_key :: string
  issue_id :: string

record criteria =
  fromName :: "string option"
  toName :: "string option"
  since :: "string option"
  until :: "string option"
  notFromName :: "string option"
  notToName :: "string option"

section \<open>The tally: a JavaScript Map in insertion order\<close>

type_synonym tally = "(string \<times> nat) list"

fun Map_get :: "tally \<Rightarrow> string \<Rightarrow> nat option" where
  "Map_get [] k = None"
| "Map_get ((k', v) # m) k = (if k' = k then Some v else Map_get m k)"

fun Map_set :: "tally \<Rightarrow> string \<Rightarrow> nat \<Rightarrow> tally" where
  "Map_set [] k v = [(k, v)]"
| "Map_set ((k', v') # m) k v = (if k' = k then (k, v) # m else (k', v') # Map_set m k v)"

text \<open>\<open>counts.get(k) || 0\<close>\<close>

definition count_or_zero :: "tally \<Rightarrow> string \<Rightarrow> nat" where
  "count_or_zero counts k = (case Map_get counts k of None \<Rightarrow> 0 | Some n \<Rightarrow> n)"

text \<open>\<open>counts.set(authorName, (counts.get(authorName) || 0) + 1)\<close>\<close>

definition bump :: "tally \<Rightarrow> string \<Rightarrow> tally" where
  "bump counts authorName = Map_set counts authorName (count_or_zero counts authorName + 1)"

text \<open>
  What holds of every tally the loops build: a key occurs once, and its count is positive.
\<close>

definition tally_inv :: "tally \<Rightarrow> bool" where
  "tally_inv counts = (distinct (map fst counts) \<and> list_all (\<lambda>e. 0 < snd e) counts)"

text \<open>
  What holds of every body of a loop over the remote data: whether it throws does not
  depend on the tally, the exception is always the same one, and when it does not throw
  it adds to the count of every name a number that does not depend on the tally.
\<close>

definition uniform :: "'e \<Rightarrow> (tally \<Rightarrow> 'x \<Rightarrow> 'e + tally) \<Rightarrow> bool" where
  "uniform e body =
     (\<forall>x. (\<forall>counts. body counts x = Inl e) \<or>
          (\<exists>d. \<forall>counts. \<exists>counts'. body counts x = Inr counts'
                 \<and> (tally_inv counts \<longrightarrow> tally_inv counts')
                 \<and> (\<forall>k. count_or_zero counts' k = count_or_zero counts k + d k)))"

section \<open>Transition filter\<close>

text \<open>
  \<open>withinWindow(ts, since, until)\<close>. The parameter \<open>getTime\<close> stands for
  \<open>new Date(s).getTime()\<close> of the JavaScript runtime: the instant in milliseconds, or
  \<open>None\<close> for \<open>NaN\<close> (an invalid date).
\<close>

definition withinWindow :: "(string \<Rightarrow> int option) \<Rightarrow> string \<Rightarrow> string option \<Rightarrow> string option \<Rightarrow> bool" where
  "withinWindow getTime ts sinceV untilV =
     (case getTime ts of
        None \<Rightarrow> False
      | Some t \<Rightarrow>
          if truthy sinceV \<and> js_lt (Some t) (getTime (or_empty sinceV)) then False
          else if truthy untilV \<and> js_gt (Some t) (getTime (or_empty untilV)) then False
          else True)"

text \<open>
  The guard of the loop over histories:
  \<open>if (since || until) { if (!withinWindow(created, since, until)) continue; }\<close>.
  \<open>window_ok\<close> is true when the history entry is not skipped.
\<close>

definition window_ok :: "(string \<Rightarrow> int option) \<Rightarrow> string option \<Rightarrow> string option \<Rightarrow> string \<Rightarrow> bool" where
  "window_ok getTime sinceV untilV createdV =
     (if truthy sinceV \<or> truthy untilV
      then withinWindow getTime createdV sinceV untilV
      else True)"

text \<open>
  The functions of the JavaScript runtime that the loops over the remote data call:
  \<open>new Date(s).getTime()\<close> (\<open>None\<close> for \<open>NaN\<close>), \<open>String.prototype.toLowerCase\<close>,
  \<open>String.prototype.trim\<close>, and the message of the \<open>TypeError\<close> that the engine throws
  when \<open>(it.toString || '').trim\<close> is not a function.
\<close>

datatype error = Error string

record runtime =
  js_getTime :: "string \<Rightarrow> int option"
  js_toLowerCase :: "string \<Rightarrow> string"
  js_trim :: "string \<Rightarrow> string"
  js_notAFunction :: string

text \<open>
  \<open>fromOk\<close> and \<open>toOk\<close>, on the values \<open>from\<close> and \<open>to\<close> that the loop has read.
\<close>

definition fromOk :: "runtime \<Rightarrow> criteria \<Rightarrow> string \<Rightarrow> bool" where
  "fromOk rt c fromV =
     ((\<not> truthy (fromName c) \<or>
         js_toLowerCase rt fromV = js_toLowerCase rt (or_empty (fromName c))) \<and>
      (\<not> truthy (notFromName c) \<or>
         js_toLowerCase rt fromV \<noteq> js_toLowerCase rt (or_empty (notFromName c))))"

definition toOk :: "runtime \<Rightarrow> criteria \<Rightarrow> string \<Rightarrow> bool" where
  "toOk rt c toV =
     ((\<not> truthy (toName c) \<or>
         js_toLowerCase rt toV = js_toLowerCase rt (or_empty (toName c))) \<and>
      (\<not> truthy (notToName c) \<or>
         js_toLowerCase rt toV \<noteq> js_toLowerCase rt (or_empty (notToName c))))"

text \<open>
  \<open>for (const x of xs) { ... }\<close> with a body that may throw: an exception ends the loop.
\<close>

fun for_of :: "('s \<Rightarrow> 'x \<Rightarrow> error + 's) \<Rightarrow> 's \<Rightarrow> 'x list \<Rightarrow> error + 's" where
  "for_of body s [] = Inr s"
| "for_of body s (x # xs) =
     (case body s x of
        Inl e \<Rightarrow> Inl e
      | Inr s' \<Rightarrow> for_of body s' xs)"

text \<open>
  The body of the loop over the items of one history entry, with
  \<open>const from = (it.fromString || '').trim()\<close> and
  \<open>const to = (it.toString || '').trim()\<close>. When the item has no \<open>toString\<close> key, the
  second line throws (\<open>Inl\<close>).
\<close>

definition process_item :: "runtime \<Rightarrow> criteria \<Rightarrow> string \<Rightarrow> tally \<Rightarrow> item \<Rightarrow> error + tally" where
  "process_item rt c authorName counts it =
     (if field it \<noteq> ''status'' then Inr counts
      else
        let fromV = js_trim rt (or_empty (fromString it)) in
        case toString it of
          Inherited \<Rightarrow> Inl (Error (js_notAFunction rt))
        | Own t \<Rightarrow>
            let toV = js_trim rt (or_empty t) in
            if fromOk rt c fromV \<and> toOk rt c toV then Inr (bump counts authorName)
            else Inr counts)"

text \<open>
  \<open>h.author && (h.author.displayName || h.author.name || h.author.accountId) || 'Unknown'\<close>
\<close>

definition authorName_of :: "history \<Rightarrow> string" where
  "authorName_of h =
     (case author h of
        None \<Rightarrow> ''Unknown''
      | Some a \<Rightarrow>
          if truthy (displayName a) then or_empty (displayName a)
          else if truthy (name a) then or_empty (name a)
          else if truthy (accountId a) then or_empty (accountId a)
          else ''Unknown'')"

text \<open>The body of the loop over the histories of one page.\<close>

definition process_history :: "runtime \<Rightarrow> criteria \<Rightarrow> tally \<Rightarrow> history \<Rightarrow> error + tally" where
  "process_history rt c counts h =
     (if \<not> window_ok (js_getTime rt) (since c) (until c) (created h) then Inr counts
      else for_of (process_item rt c (authorName_of h)) counts
             (case items h of None \<Rightarrow> [] | Some its \<Rightarrow> its))"

section \<open>Ranking\<close>

text \<open>
  \<open>Array.prototype.sort\<close> with a comparator: a stable sort, written as insertion sort.
  The element \<open>x\<close> goes before \<open>y\<close> when \<open>cmp x y \<le> 0\<close>.
\<close>

fun insert_by :: "('a \<Rightarrow> 'a \<Rightarrow> int) \<Rightarrow> 'a \<Rightarrow> 'a list \<Rightarrow> 'a list" where
  "insert_by cmp x [] = [x]"
| "insert_by cmp x (y # ys) = (if cmp x y \<le> 0 then x # y # ys else y # insert_by cmp x ys)"

definition js_sort :: "('a \<Rightarrow> 'a \<Rightarrow> int) \<Rightarrow> 'a list \<Rightarrow> 'a list" where
  "js_sort cmp xs = foldr (insert_by cmp) xs []"

record entry =
  user :: string
  countN :: nat

text \<open>
  \<open>(a, b) => b.count - a.count || a.user.localeCompare(b.user)\<close>. The parameter
  \<open>localeCompare\<close> is the collation of the JavaScript runtime: negative, zero or positive.
\<close>

definition user_cmp :: "(string \<Rightarrow> string \<Rightarrow> int) \<Rightarrow> entry \<Rightarrow> entry \<Rightarrow> int" where
  "user_cmp localeCompare a b =
     (if int (countN b) - int (countN a) \<noteq> 0 then int (countN b) - int (countN a)
      else localeCompare (user a) (user b))"

text \<open>
  \<open>Array.from(counts.entries()).map(([user, count]) => ({ user, count }))\<close>,
      then the sort.
\<close>

definition rank :: "(string \<Rightarrow> string \<Rightarrow> int) \<Rightarrow> tally \<Rightarrow> entry list" where
  "rank localeCompare counts =
     js_sort (user_cmp localeCompare) (map (\<lambda>(u, n).
         \<lparr>user = u, countN = n\<rparr>) counts)"

text \<open>\<open>arr.slice(0, end)\<close>: a negative \<open>end\<close> counts from the end of the array.\<close>

definition slice0 :: "'a list \<Rightarrow> int \<Rightarrow> 'a list" where
  "slice0 xs e = (if e < 0 then take (nat (int (length xs) + e)) xs else take (nat e) xs)"

text \<open>What a consistent comparator is: \<open>\<le> 0\<close> is total and transitive.\<close>

definition consistent :: "('a \<Rightarrow> 'a \<Rightarrow> int) \<Rightarrow> bool" where
  "consistent cmp =
     ((\<forall>a b. cmp a b \<le> 0 \<or> cmp b a \<le> 0) \<and>
      (\<forall>a b c. cmp a b \<le> 0 \<and> cmp b c \<le> 0 \<longrightarrow> cmp a c \<le> 0))"

section \<open>Per-issue pagination\<close>

datatype remote_call = SearchCall string int | ChangelogCall string int int

record run_state =
  counts :: tally
  calls :: "remote_call list"

text \<open>
  \<open>processIssue\<close>: the \<open>do { ... } while (startAt < total)\<close> loop. The parameter
  \<open>fetchChangelog\<close> is the remote call (issue id, startAt, maxResults); \<open>Inl\<close> is a
  rejected fetch, which ends the run, as does an exception in the loop over the page (the
  tally is dropped then, so the state keeps the one before the page). The result is
  \<open>None\<close> when the loop never returns.
\<close>

partial_function (option) processIssue_loop ::
  "(string \<Rightarrow> int \<Rightarrow> int \<Rightarrow> error + changelog) \<Rightarrow> runtime \<Rightarrow> criteria \<Rightarrow>
     issue \<Rightarrow> int \<Rightarrow> run_state \<Rightarrow> (error option \<times> run_state) option" where
  "processIssue_loop fetchChangelog rt c iss startAt st =
     (let st1 = st\<lparr>calls := calls st @ [ChangelogCall (issue_id iss) startAt 100]\<rparr> in
      case fetchChangelog (issue_id iss) startAt 100 of
        Inl e \<Rightarrow> Some (Some e, st1)
      | Inr page \<Rightarrow>
          let totalV = (case log_total page of None \<Rightarrow> 0 | Some t \<Rightarrow> t);
              histories = (case log_values page of None \<Rightarrow> [] | Some hs \<Rightarrow> hs)
          in case for_of (process_history rt c) (counts st1) histories of
               Inl e \<Rightarrow> Some (Some e, st1)
             | Inr counts' \<Rightarrow>
                 let st2 = st1\<lparr>counts := counts'\<rparr>;
                     startAt' = startAt + int (length histories)
                 in if length histories = 0 then Some (None, st2)
                    else if startAt' < totalV
                        then processIssue_loop fetchChangelog rt c iss startAt' st2
                    else Some (None, st2))"

declare processIssue_loop.simps [code]

definition processIssue ::
  "(string \<Rightarrow> int \<Rightarrow> int \<Rightarrow> error + changelog) \<Rightarrow> runtime \<Rightarrow> criteria \<Rightarrow>
     issue \<Rightarrow> run_state \<Rightarrow> (error option \<times> run_state) option" where
  "processIssue fetchChangelog rt c iss st = processIssue_loop fetchChangelog rt c iss 0 st"

text \<open>
  The issues one after the other: the schedule of \<open>mapLimit\<close> with one issue in flight.
  The first rejected fetch ends the run.
\<close>

fun processAll ::
  "(string \<Rightarrow> int \<Rightarrow> int \<Rightarrow> error + changelog) \<Rightarrow> runtime \<Rightarrow> criteria \<Rightarrow>
     issue list \<Rightarrow> run_state \<Rightarrow> (error option \<times> run_state) option" where
  "processAll fetchChangelog rt c [] st = Some (None, st)"
| "processAll fetchChangelog rt c (iss # rest) st =
     (case processIssue fetchChangelog rt c iss st of
        None \<Rightarrow> None
      | Some (Some e, st') \<Rightarrow> Some (Some e, st')
      | Some (None, st') \<Rightarrow> processAll fetchChangelog rt c rest st')"

text \<open>
  \<open>countTransitionsByUser\<close>: the tally starts empty, every issue is processed, and the
  ranking is computed once all of them are done.
\<close>

definition countTransitionsByUser ::
  "(string \<Rightarrow> int \<Rightarrow> int \<Rightarrow> error + changelog) \<Rightarrow> runtime \<Rightarrow>
     (string \<Rightarrow> string \<Rightarrow> int) \<Rightarrow> criteria \<Rightarrow> issue list \<Rightarrow> remote_call list \<Rightarrow>
     ((error + entry list) \<times> remote_call list) option" where
  "countTransitionsByUser fetchChangelog rt localeCompare c issues calls0 =
     (case processAll fetchChangelog rt c issues \<lparr>counts = [], calls = calls0\<rparr> of
        None \<Rightarrow> None
      | Some (Some e, st) \<Rightarrow> Some (Inl e, calls st)
      | Some (None, st) \<Rightarrow> Some (Inr (rank localeCompare (counts st)), calls st))"

section \<open>Discovery mode (\<open>movers.js\<close>)\<close>

text \<open>The separator of a pair key, U+2192, as its three UTF-8 bytes.\<close>

definition arrow :: string where
  "arrow = [CHR 0xE2, CHR 0x86, CHR 0x92]"

text \<open>
  The body of the loop over the items in discovery mode; the key is the template string
  \<open>`${from}\<rightarrow>${to}`\<close>.
\<close>

definition discover_item :: "runtime \<Rightarrow> tally \<Rightarrow> item \<Rightarrow> error + tally" where
  "discover_item rt pairs it =
     (if field it \<noteq> ''status'' then Inr pairs
      else
        let fromV = js_trim rt (or_empty (fromString it)) in
        case toString it of
          Inherited \<Rightarrow> Inl (Error (js_notAFunction rt))
        | Own t \<Rightarrow>
            let toV = js_trim rt (or_empty t) in
            Inr (bump pairs (fromV @ arrow @ toV)))"

definition discover_history :: "runtime \<Rightarrow> string option \<Rightarrow> string option \<Rightarrow> tally \<Rightarrow> history \<Rightarrow> error + tally" where
  "discover_history rt sinceV untilV pairs h =
     (if \<not> window_ok (js_getTime rt) sinceV untilV (created h) then Inr pairs
      else for_of (discover_item rt) pairs (case items h of None \<Rightarrow> [] | Some its \<Rightarrow> its))"

partial_function (option) discover_loop ::
  "(string \<Rightarrow> int \<Rightarrow> int \<Rightarrow> error + changelog) \<Rightarrow> runtime \<Rightarrow> string option \<Rightarrow>
     string option \<Rightarrow> issue \<Rightarrow> int \<Rightarrow> run_state \<Rightarrow> (error option \<times> run_state) option" where
  "discover_loop fetchChangelog rt sinceV untilV iss startAt st =
     (let st1 = st\<lparr>calls := calls st @ [ChangelogCall (issue_id iss) startAt 100]\<rparr> in
      case fetchChangelog (issue_id iss) startAt 100 of
        Inl e \<Rightarrow> Some (Some e, st1)
      | Inr page \<Rightarrow>
          let totalV = (case log_total page of None \<Rightarrow> 0 | Some t \<Rightarrow> t);
              histories = (case log_values page of None \<Rightarrow> [] | Some hs \<Rightarrow> hs)
          in case for_of (discover_history rt sinceV untilV) (counts st1) histories of
               Inl e \<Rightarrow> Some (Some e, st1)
             | Inr pairs' \<Rightarrow>
                 let st2 = st1\<lparr>counts := pairs'\<rparr>;
                     startAt' = startAt + int (length histories)
                 in if length histories = 0 then Some (None, st2)
                    else if startAt' < totalV
                        then discover_loop fetchChangelog rt sinceV untilV iss startAt' st2
                    else Some (None, st2))"

declare discover_loop.simps [code]

fun discoverAll ::
  "(string \<Rightarrow> int \<Rightarrow> int \<Rightarrow> error + changelog) \<Rightarrow> runtime \<Rightarrow> string option \<Rightarrow>
     string option \<Rightarrow> issue list \<Rightarrow> run_state \<Rightarrow> (error option \<times> run_state) option" where
  "discoverAll fetchChangelog rt sinceV untilV [] st = Some (None, st)"
| "discoverAll fetchChangelog rt sinceV untilV (iss # rest) st =
     (case discover_loop fetchChangelog rt sinceV untilV iss 0 st of
        None \<Rightarrow> None
      | Some (Some e, st') \<Rightarrow> Some (Some e, st')
      | Some (None, st') \<Rightarrow> discoverAll fetchChangelog rt sinceV untilV rest st')"

text \<open>\<open>s.split(sep)\<close> for a string separator.\<close>

function split_from :: "string \<Rightarrow> string \<Rightarrow> string \<Rightarrow> string list" where
  "split_from sep cur s =
     (if s = [] then [cur]
      else if sep \<noteq> [] \<and> startsWith s sep
          then cur # split_from sep [] (drop (length sep) s)
      else split_from sep (cur @ [hd s]) (tl s))"
  by pat_completeness auto
termination
  by (relation "measure (\<lambda>(sep, cur, s). length s)") auto

definition split :: "string \<Rightarrow> string \<Rightarrow> string list" where
  "split s sep = split_from sep [] s"

record transition =
  t_from :: string
  t_to :: "string option"
  t_count :: nat

text \<open>\<open>const [from, to] = pair.split('\<rightarrow>'); return { from, to, count }\<close>\<close>

definition to_transition :: "string \<times> nat \<Rightarrow> transition" where
  "to_transition e =
     (case e of (pair, n) \<Rightarrow>
        (case split pair arrow of
           [] \<Rightarrow> \<lparr>t_from = [], t_to = None, t_count = n\<rparr>
         | [f] \<Rightarrow> \<lparr>t_from = f, t_to = None, t_count = n\<rparr>
         | f # t # _ \<Rightarrow> \<lparr>t_from = f, t_to = Some t, t_count = n\<rparr>))"

text \<open>The template string \<open>`${a.from}\<rightarrow>${a.to}`\<close>.\<close>

definition pair_key :: "transition \<Rightarrow> string" where
  "pair_key a = t_from a @ arrow @ (case t_to a of None \<Rightarrow> ''undefined'' | Some t \<Rightarrow> t)"

definition pair_cmp :: "(string \<Rightarrow> string \<Rightarrow> int) \<Rightarrow> transition \<Rightarrow> transition \<Rightarrow> int" where
  "pair_cmp localeCompare a b =
     (if int (t_count b) - int (t_count a) \<noteq> 0 then int (t_count b) - int (t_count a)
      else localeCompare (pair_key a) (pair_key b))"

definition rank_pairs :: "(string \<Rightarrow> string \<Rightarrow> int) \<Rightarrow> tally \<Rightarrow> transition list" where
  "rank_pairs localeCompare pairs = js_sort (pair_cmp localeCompare) (map to_transition pairs)"

definition discoverTransitionPairs ::
  "(string \<Rightarrow> int \<Rightarrow> int \<Rightarrow> error + changelog) \<Rightarrow> runtime \<Rightarrow>
     (string \<Rightarrow> string \<Rightarrow> int) \<Rightarrow> issue list \<Rightarrow> string option \<Rightarrow> string option \<Rightarrow>
     remote_call list \<Rightarrow> ((error + transition list) \<times> remote_call list) option" where
  "discoverTransitionPairs fetchChangelog rt localeCompare issues sinceV untilV calls0 =
     (case discoverAll fetchChangelog rt sinceV untilV issues
         \<lparr>counts = [], calls = calls0\<rparr> of
        None \<Rightarrow> None
      | Some (Some e, st) \<Rightarrow> Some (Inl e, calls st)
      | Some (None, st) \<Rightarrow> Some (Inr (rank_pairs localeCompare (counts st)), calls st))"

section \<open>Query resolution\<close>

text \<open>\<open>cleanEnv(v)\<close>: trim, strip one pair of surrounding quotes, trim again.\<close>

definition cleanEnv :: "string option \<Rightarrow> string" where
  "cleanEnv v =
     (case v of
        None \<Rightarrow> []
      | Some v' \<Rightarrow>
          let s = trim v';
              s' = (if (startsWith s [CHR 0x22] \<and> endsWith s [CHR 0x22]) \<or>
                       (startsWith s [CHR 0x27] \<and> endsWith s [CHR 0x27])
                    then take (length s - 2) (drop 1 s) else s)
          in trim s')"

text \<open>The regular expression \<open>/^https?:\/\//i\<close>.\<close>

definition is_http_url :: "string \<Rightarrow> bool" where
  "is_http_url raw = (startsWith (toLowerCase raw) ''http://'' \<or> startsWith (toLowerCase raw) ''https://'')"

text \<open>
  \<open>toJql(filterOrJql)\<close>. The parameter \<open>parseURL\<close> stands for \<open>new URL(raw)\<close> of the
  runtime: \<open>None\<close> when it throws, otherwise \<open>searchParams.get\<close> of the parsed URL.
\<close>

definition toJql :: "(string \<Rightarrow> (string \<Rightarrow> string option) option) \<Rightarrow> string option \<Rightarrow> string" where
  "toJql parseURL filterOrJql =
     (let raw = cleanEnv filterOrJql in
      if raw = [] then []
      else if all_digits raw then ''filter='' @ raw
      else if is_http_url raw then
        (case parseURL raw of
           None \<Rightarrow> raw
         | Some get \<Rightarrow>
             if truthy (get ''filter'') \<and> all_digits (or_empty (get ''filter''))
             then ''filter='' @ or_empty (get ''filter'')
             else if truthy (get ''jql'') then or_empty (get ''jql'')
             else raw)
      else raw)"

section \<open>Result cache\<close>

record 'v cache_entry =
  cached_value :: 'v
  expireAt :: int

type_synonym ('k, 'v) cache = "'k \<Rightarrow> 'v cache_entry option"

text \<open>
  \<open>cacheGet(key)\<close> and \<open>cacheSet(key, value, ttlMs)\<close>; \<open>now\<close> is \<open>Date.now()\<close> at the
  call. The cache is returned with the value, since \<open>cacheGet\<close> deletes an expired entry.
\<close>

definition cacheGet :: "('k, 'v) cache \<Rightarrow> int \<Rightarrow> 'k \<Rightarrow> 'v option \<times> ('k, 'v) cache" where
  "cacheGet CACHE now key =
     (case CACHE key of
        None \<Rightarrow> (None, CACHE)
      | Some hit \<Rightarrow>
          if expireAt hit \<noteq> 0 \<and> now > expireAt hit then (None, CACHE(key := None))
          else (Some (cached_value hit), CACHE))"

definition cacheSet :: "('k, 'v) cache \<Rightarrow> int \<Rightarrow> 'k \<Rightarrow> 'v \<Rightarrow> int option \<Rightarrow> ('k, 'v) cache" where
  "cacheSet CACHE now key v ttlMs =
     CACHE(key \<mapsto> \<lparr>cached_value = v,
                    expireAt = (case ttlMs of None \<Rightarrow> 0 | Some t \<Rightarrow> if t \<noteq> 0
                        then now + t else 0)\<rparr>)"

section \<open>Request parameters\<close>

text \<open>
  \<open>parseInt(s, 10)\<close>: leading white space, an optional sign, then the longest run of
  decimal digits; \<open>None\<close> (\<open>NaN\<close>) when there is no digit. The value is the exact integer
  (the runtime rounds beyond \<open>2^53\<close>).
\<close>

definition digit_val :: "char \<Rightarrow> nat" where
  "digit_val c = of_char c - 48"

definition parseInt :: "string \<Rightarrow> int option" where
  "parseInt s =
     (let t = dropWhile is_space s;
          neg = (case t of [] \<Rightarrow> False | c # r \<Rightarrow> c = CHR ''-'');
          r = (case t of [] \<Rightarrow> [] | c # r \<Rightarrow> if c = CHR ''-'' \<or> c = CHR ''+''
              then r else t);
          ds = takeWhile is_digit r
      in if ds = [] then None
         else Some ((if neg then - 1 else 1) * int (foldl
             (\<lambda>a d. 10 * a + digit_val d) 0 ds)))"

text \<open>\<open>Math.min(parseInt(raw || dflt, 10) || d, cap)\<close>\<close>

definition queryNumber :: "string option \<Rightarrow> string \<Rightarrow> int \<Rightarrow> int \<Rightarrow> int" where
  "queryNumber raw dflt d cap =
     min (case parseInt (if truthy raw then or_empty raw else dflt) of
            None \<Rightarrow> d
          | Some n \<Rightarrow> if n = 0 then d else n) cap"

record query =
  q_filter :: "string option"
  q_from :: "string option"
  q_to :: "string option"
  q_notFrom :: "string option"
  q_notTo :: "string option"
  q_since :: "string option"
  q_until :: "string option"
  q_limit :: "string option"
  q_maxIssues :: "string option"
  q_concurrency :: "string option"
  q_ttl :: "string option"
  q_discover :: "string option"

definition limit_of :: "query \<Rightarrow> int" where
  "limit_of q = queryNumber (q_limit q) ''20'' 20 100"

definition maxIssues_of :: "query \<Rightarrow> int" where
  "maxIssues_of q = queryNumber (q_maxIssues q) ''150'' 150 1000"

definition concurrencyParam_of :: "query \<Rightarrow> int" where
  "concurrencyParam_of q = queryNumber (q_concurrency q) ''0'' 0 20"

definition ttl_of :: "query \<Rightarrow> int" where
  "ttl_of q = queryNumber (q_ttl q) ''60'' 60 600 * 1000"

section \<open>Request handler\<close>

text \<open>
  The platform: the two remote calls and the functions of the JavaScript runtime that the
  handler depends on. \<open>rt_search\<close> is the search request (query, maxResults) and returns
  the \<open>issues\<close> array of the response, \<open>None\<close> when it is not an array.
\<close>

record platform =
  rt_search :: "string \<Rightarrow> int \<Rightarrow> error + issue list option"
  rt_changelog :: "string \<Rightarrow> int \<Rightarrow> int \<Rightarrow> error + changelog"
  rt_js :: runtime
  rt_localeCompare :: "string \<Rightarrow> string \<Rightarrow> int"
  rt_parseURL :: "string \<Rightarrow> (string \<Rightarrow> string option) option"

text \<open>\<open>searchIssues(jql, max)\<close>, with the remote call it makes.\<close>

definition searchIssues :: "platform \<Rightarrow> string \<Rightarrow> int \<Rightarrow> (error + issue list) \<times> remote_call list" where
  "searchIssues P jql maxV =
     (case rt_search P jql (min maxV 1000) of
        Inl e \<Rightarrow> (Inl e, [SearchCall jql (min maxV 1000)])
      | Inr res \<Rightarrow> (Inr (case res of None \<Rightarrow> [] | Some is \<Rightarrow> is), [SearchCall jql (min maxV 1000)]))"

record payload =
  p_filter :: "string option"
  p_from :: "string option"
  p_to :: "string option"
  p_notFrom :: "string option"
  p_notTo :: "string option"
  p_since :: "string option"
  p_until :: "string option"
  totalIssues :: nat
  users :: "entry list"

record pairs_payload =
  d_filter :: "string option"
  d_since :: "string option"
  d_until :: "string option"
  d_totalIssues :: nat
  transitions :: "transition list"

datatype body = ErrorBody string | Users payload | Transitions pairs_payload

record response =
  statusCode :: nat
  body :: body

type_synonym cache_key =
  "string \<times> string option \<times> string option \<times> string option \<times> string option \<times>
   string option \<times> string option \<times> int \<times> int \<times> int"

definition or_null :: "string option \<Rightarrow> string option" where
  "or_null v = (if truthy v then v else None)"

definition message :: "error \<Rightarrow> string" where
  "message e = (case e of Error m \<Rightarrow> m)"

text \<open>
  \<open>handleMovers\<close> of \<open>server.js\<close>, on the parsed query parameters. \<open>now1\<close> and \<open>now2\<close>
  are \<open>Date.now()\<close> at the cache read and at the cache write. The result is the response,
  the cache afterwards and the remote calls made; \<open>None\<close> when the aggregation never
  returns.
\<close>

definition handleMovers ::
  "platform \<Rightarrow> int \<Rightarrow> int \<Rightarrow> (cache_key, body) cache \<Rightarrow> query \<Rightarrow>
     (response \<times> (cache_key, body) cache \<times> remote_call list) option" where
  "handleMovers P now1 now2 CACHE q =
     (let limit = limit_of q;
          maxIssues = maxIssues_of q;
          concurrencyParam = concurrencyParam_of q;
          ttl = ttl_of q
      in
      if \<not> truthy (q_filter q)
      then Some (\<lparr>statusCode = 400, body = ErrorBody ''Missing required query param: filter''\<rparr>,
          CACHE, [])
      else
        let jql = toJql (rt_parseURL P) (q_filter q) in
        if jql = []
        then Some (\<lparr>statusCode = 400, body = ErrorBody ''Invalid filter/JQL''\<rparr>,
            CACHE, [])
        else
          let cacheKey = (jql, q_from q, q_to q, q_notFrom q, q_notTo q, q_since q, q_until q,
                          limit, maxIssues, concurrencyParam)
          in
          case cacheGet CACHE now1 cacheKey of
            (Some cached, CACHE1) \<Rightarrow> Some (\<lparr>statusCode = 200, body = cached\<rparr>,
                CACHE1, [])
          | (None, CACHE1) \<Rightarrow>
              (case searchIssues P jql maxIssues of
                 (Inl e, calls1) \<Rightarrow>
                   Some (\<lparr>statusCode = 500, body = ErrorBody (message e)\<rparr>,
                       CACHE1, calls1)
               | (Inr issues, calls1) \<Rightarrow>
                   (case countTransitionsByUser (rt_changelog P) (rt_js P) (rt_localeCompare P)
                           \<lparr>fromName = q_from q, toName = q_to q, since = q_since q,
                            until = q_until q, notFromName = q_notFrom q, notToName = q_notTo q\<rparr>
                           issues calls1 of
                      None \<Rightarrow> None
                    | Some (Inl e, calls2) \<Rightarrow>
                        Some (\<lparr>statusCode = 500, body = ErrorBody (message e)\<rparr>,
                            CACHE1, calls2)
                    | Some (Inr results, calls2) \<Rightarrow>
                        let top = slice0 results limit;
                            pl = \<lparr>p_filter = q_filter q, p_from = or_null (q_from q),
                                  p_to = or_null (q_to q), p_notFrom = or_null (q_notFrom q),
                                  p_notTo = or_null (q_notTo q), p_since = or_null (q_since q),
                                  p_until = or_null (q_until q),
                                  totalIssues = length issues, users = top\<rparr>
                        in Some (\<lparr>statusCode = 200, body = Users pl\<rparr>,
                                 cacheSet CACHE1 now2 cacheKey (Users pl) (Some ttl), calls2))))"

text \<open>
  \<open>exports.handler\<close> of \<open>movers.js\<close>: the same steps, and the discovery mode when the
  parameter \<open>discover\<close> is \<open>'1'\<close>.
\<close>

definition handler ::
  "platform \<Rightarrow> int \<Rightarrow> int \<Rightarrow> (cache_key, body) cache \<Rightarrow> query \<Rightarrow>
     (response \<times> (cache_key, body) cache \<times> remote_call list) option" where
  "handler P now1 now2 CACHE q =
     (let limit = limit_of q;
          maxIssues = maxIssues_of q;
          concurrencyParam = concurrencyParam_of q;
          ttl = ttl_of q;
          discover = (q_discover q = Some ''1'')
      in
      if \<not> truthy (q_filter q)
      then Some (\<lparr>statusCode = 400, body = ErrorBody ''Missing required query param: filter''\<rparr>,
          CACHE, [])
      else
        let jql = toJql (rt_parseURL P) (q_filter q) in
        if jql = []
        then Some (\<lparr>statusCode = 400, body = ErrorBody ''Invalid filter/JQL''\<rparr>,
            CACHE, [])
        else
          let cacheKey = (jql, q_from q, q_to q, q_notFrom q, q_notTo q, q_since q, q_until q,
                          limit, maxIssues, concurrencyParam)
          in
          case cacheGet CACHE now1 cacheKey of
            (Some cached, CACHE1) \<Rightarrow> Some (\<lparr>statusCode = 200, body = cached\<rparr>,
                CACHE1, [])
          | (None, CACHE1) \<Rightarrow>
              (case searchIssues P jql maxIssues of
                 (Inl e, calls1) \<Rightarrow>
                   Some (\<lparr>statusCode = 500, body = ErrorBody (message e)\<rparr>,
                       CACHE1, calls1)
               | (Inr issues, calls1) \<Rightarrow>
                   if discover then
                     (case discoverTransitionPairs (rt_changelog P) (rt_js P) (rt_localeCompare P)
                             issues (q_since q) (q_until q) calls1 of
                        None \<Rightarrow> None
                      | Some (Inl e, calls2) \<Rightarrow>
                          Some (\<lparr>statusCode = 500, body = ErrorBody (message e)\<rparr>,
                              CACHE1, calls2)
                      | Some (Inr pairs, calls2) \<Rightarrow>
                          let topPairs = slice0 pairs (min limit 100);
                              pl = \<lparr>d_filter = q_filter q, d_since = or_null (q_since q),
                                    d_until = or_null (q_until q),
                                    d_totalIssues = length issues, transitions = topPairs\<rparr>
                          in Some (\<lparr>statusCode = 200, body = Transitions pl\<rparr>,
                                   cacheSet CACHE1 now2 cacheKey (Transitions pl) (Some ttl), calls2))
                   else
                   (case countTransitionsByUser (rt_changelog P) (rt_js P) (rt_localeCompare P)
                           \<lparr>fromName = q_from q, toName = q_to q, since = q_since q,
                            until = q_until q, notFromName = q_notFrom q, notToName = q_notTo q\<rparr>
                           issues calls1 of
                      None \<Rightarrow> None
                    | Some (Inl e, calls2) \<Rightarrow>
                        Some (\<lparr>statusCode = 500, body = ErrorBody (message e)\<rparr>,
                            CACHE1, calls2)
                    | Some (Inr results, calls2) \<Rightarrow>
                        let top = slice0 results limit;
                            pl = \<lparr>p_filter = q_filter q, p_from = or_null (q_from q),
                                  p_to = or_null (q_to q), p_notFrom = or_null (q_notFrom q),
                                  p_notTo = or_null (q_notTo q), p_since = or_null (q_since q),
                                  p_until = or_null (q_until q),
                                  totalIssues = length issues, users = top\<rparr>
                        in Some (\<lparr>statusCode = 200, body = Users pl\<rparr>,
                                 cacheSet CACHE1 now2 cacheKey (Users pl) (Some ttl), calls2))))"

section \<open>Bounded fan-out\<close>

text \<open>
  \<open>Math.max(1, Math.min(10, Number(process.env.MOVERS_CONCURRENCY || 5)))\<close>. A number is
  a \<open>rat option\<close>, \<open>None\<close> for \<open>NaN\<close>; \<open>Math.min\<close> and \<open>Math.max\<close> return \<open>NaN\<close> when an
  argument is \<open>NaN\<close>. The parameter \<open>toNumber\<close> stands for \<open>Number(s)\<close> on a string.
\<close>

definition Math_min :: "rat option \<Rightarrow> rat option \<Rightarrow> rat option" where
  "Math_min a b = (case a of None \<Rightarrow> None | Some x \<Rightarrow> (case b of None \<Rightarrow> None | Some y \<Rightarrow> Some (min x y)))"

definition Math_max :: "rat option \<Rightarrow> rat option \<Rightarrow> rat option" where
  "Math_max a b = (case a of None \<Rightarrow> None | Some x \<Rightarrow> (case b of None \<Rightarrow> None | Some y \<Rightarrow> Some (max x y)))"

definition concurrency :: "(string \<Rightarrow> rat option) \<Rightarrow> string option \<Rightarrow> rat option" where
  "concurrency toNumber MOVERS_CONCURRENCY =
     Math_max (Some 1) (Math_min (Some 10)
       (if truthy MOVERS_CONCURRENCY then toNumber (or_empty MOVERS_CONCURRENCY) else Some 5))"

text \<open>\<open>pending.size >= limit\<close>: false when \<open>limit\<close> is \<open>NaN\<close>.\<close>

definition size_ge :: "nat \<Rightarrow> rat option \<Rightarrow> bool" where
  "size_ge n limit = (case limit of None \<Rightarrow> False | Some r \<Rightarrow> rat_of_nat n \<ge> r)"

text \<open>
  \<open>mapLimit(arr, limit, iter)\<close> as a transition system. \<open>todo\<close> is the rest of \<open>arr\<close>,
  \<open>pending\<close> the set of promises of the items whose \<open>iter\<close> has been started and whose
  \<open>finally\<close> callback has not run yet. The loop is either running (\<open>Looping\<close>), suspended
  in \<open>await Promise.race(pending)\<close>, suspended in \<open>await Promise.all(pending)\<close>, has
  returned, or has thrown because an \<open>iter\<close> was rejected (\<open>Rejected\<close>; the promises
  left in \<open>pending\<close> still run to their end). A promise settles only while the loop is
  not running; its \<open>finally\<close> callback was registered before the race and so deletes it
  from \<open>pending\<close> before the race resumes the loop.
\<close>

datatype phase = Looping | AwaitRace | AwaitAll | Returned | Rejected

record 'a pool =
  todo :: "'a list"
  pending :: "'a list"
  phase :: phase
  settled :: bool

definition pool_init :: "'a list \<Rightarrow> 'a pool" where
  "pool_init arr = \<lparr>todo = arr, pending = [], phase = Looping, settled = False\<rparr>"

inductive mapLimit_step :: "rat option \<Rightarrow> 'a pool \<Rightarrow> 'a pool \<Rightarrow> bool" for limit :: "rat option" where
  start: "phase s = Looping \<Longrightarrow> todo s = x # xs \<Longrightarrow>
     mapLimit_step limit s
       (s\<lparr>todo := xs, pending := pending s @ [x],
          phase := (if size_ge (length (pending s) + 1) limit then AwaitRace else Looping),
          settled := False\<rparr>)"
| loop_end: "phase s = Looping \<Longrightarrow> todo s = [] \<Longrightarrow> mapLimit_step limit s (s\<lparr>phase := AwaitAll\<rparr>)"
| settle: "phase s \<noteq> Looping \<Longrightarrow> x \<in> set (pending s) \<Longrightarrow>
     mapLimit_step limit s (s\<lparr>pending := remove1 x (pending s), settled := True\<rparr>)"
| reject: "phase s = AwaitRace \<or> phase s = AwaitAll \<Longrightarrow> x \<in> set (pending s) \<Longrightarrow>
     mapLimit_step limit s (s\<lparr>pending := remove1 x (pending s), phase := Rejected\<rparr>)"
| resume: "phase s = AwaitRace \<Longrightarrow> settled s \<Longrightarrow> mapLimit_step limit s (s\<lparr>phase := Looping\<rparr>)"
| finish: "phase s = AwaitAll \<Longrightarrow> pending s = [] \<Longrightarrow> mapLimit_step limit s (s\<lparr>phase := Returned\<rparr>)"

definition mapLimit_reaches :: "rat option \<Rightarrow> 'a list \<Rightarrow> 'a pool \<Rightarrow> bool" where
  "mapLimit_reaches limit arr s = rtranclp (mapLimit_step limit) (pool_init arr) s"

section \<open>Case-insensitive comparison\<close>

lemma of_char_lt_256: "(of_char c :: nat) < 256"
  by (cases c) (simp add: of_char_def)

lemma lower_char_upper_not_upper: "is_upper a \<Longrightarrow> \<not> is_upper (lower_char a)"
  by (simp add: is_upper_def lower_char_def of_char_lt_256)

lemma lower_char_inj_upper:
  assumes "is_upper a" "is_upper b" "lower_char a = lower_char b"
  shows "a = b"
proof -
  have "of_char (char_of (of_char a + (32::nat)) :: char) = (of_char (char_of (of_char b + (32::nat)) :: char) :: nat)"
    using assms by (simp add: lower_char_def)
  then have "(of_char a :: nat) = of_char b"
    using assms(1,2) by (simp add: is_upper_def)
  then show ?thesis by simp
qed

lemma lower_char_eq_iff: "lower_char a = lower_char b \<longleftrightarrow> same_letter a b"
proof (cases "is_upper a"; cases "is_upper b")
  assume "is_upper a" "is_upper b"
  then show ?thesis
    using lower_char_inj_upper[of a b] lower_char_upper_not_upper[of a] lower_char_upper_not_upper[of b]
    by (auto simp: same_letter_def)
next
  assume "is_upper a" "\<not> is_upper b"
  then show ?thesis
    using lower_char_upper_not_upper[of a]
    by (auto simp: same_letter_def) (simp_all add: lower_char_def)
next
  assume "\<not> is_upper a" "is_upper b"
  then show ?thesis
    using lower_char_upper_not_upper[of b]
    by (auto simp: same_letter_def) (simp_all add: lower_char_def)
next
  assume "\<not> is_upper a" "\<not> is_upper b"
  then show ?thesis
    by (auto simp: same_letter_def lower_char_def)
qed

lemma toLowerCase_eq_iff: "toLowerCase a = toLowerCase b \<longleftrightarrow> ci_equal a b"
proof (induction a arbitrary: b)
  case Nil
  then show ?case by (auto simp: toLowerCase_def ci_equal_def)
next
  case (Cons x xs)
  then show ?case
    by (cases b) (auto simp: toLowerCase_def ci_equal_def lower_char_eq_iff)
qed

section \<open>The transition filter\<close>

text \<open>
  C1. What the loop does with one item of a history entry, on the fields as the remote API
  sent them. An item whose field is not \<open>status\<close> is never counted. A status item that has
  no \<open>toString\<close> key is not counted either: reading its to value throws. Any other status
  item is counted (the author's tally goes up by one) exactly when every constraint that is
  set holds, where a constraint is set when it is neither absent nor the empty string, and
  a constraint that is not set constrains nothing. The value of the item that a constraint
  is compared with is \<open>fromString\<close> (for \<open>fromName\<close>, \<open>notFromName\<close>) or \<open>toString\<close>
  (for \<open>toName\<close>, \<open>notToName\<close>), with \<open>null\<close> read as the empty string, and trimmed; the
  constraint itself is taken as given, not trimmed. The comparison is equality of the two
  strings after \<open>toLowerCase\<close>: equality for \<open>fromName\<close> and \<open>toName\<close>, inequality for
  \<open>notFromName\<close> and \<open>notToName\<close>. On ASCII strings, where the runtime's \<open>toLowerCase\<close>
  maps \<open>A\<close>..\<open>Z\<close> to \<open>a\<close>..\<open>z\<close> and nothing else, that is equality up to the case of
  letters.
\<close>

theorem transition_filter_matches:
  "process_item rt c a m it =
     (if field it \<noteq> ''status'' then Inr m
      else case toString it of
             Inherited \<Rightarrow> Inl (Error (js_notAFunction rt))
           | Own t \<Rightarrow>
               if (truthy (fromName c) \<longrightarrow>
                     js_toLowerCase rt (js_trim rt (or_empty (fromString it)))
                       = js_toLowerCase rt (or_empty (fromName c)))
                  \<and> (truthy (notFromName c) \<longrightarrow>
                     js_toLowerCase rt (js_trim rt (or_empty (fromString it)))
                       \<noteq> js_toLowerCase rt (or_empty (notFromName c)))
                  \<and> (truthy (toName c) \<longrightarrow>
                     js_toLowerCase rt (js_trim rt (or_empty t))
                       = js_toLowerCase rt (or_empty (toName c)))
                  \<and> (truthy (notToName c) \<longrightarrow>
                     js_toLowerCase rt (js_trim rt (or_empty t))
                       \<noteq> js_toLowerCase rt (or_empty (notToName c)))
               then Inr (bump m a) else Inr m)
   \<and> ((\<forall>s. is_ascii s \<longrightarrow> js_toLowerCase rt s = toLowerCase s) \<longrightarrow>
        (\<forall>x y. is_ascii x \<and> is_ascii y \<longrightarrow>
           (js_toLowerCase rt x = js_toLowerCase rt y \<longleftrightarrow> ci_equal x y)))"
proof
  show "process_item rt c a m it =
     (if field it \<noteq> ''status'' then Inr m
      else case toString it of
             Inherited \<Rightarrow> Inl (Error (js_notAFunction rt))
           | Own t \<Rightarrow>
               if (truthy (fromName c) \<longrightarrow>
                     js_toLowerCase rt (js_trim rt (or_empty (fromString it)))
                       = js_toLowerCase rt (or_empty (fromName c)))
                  \<and> (truthy (notFromName c) \<longrightarrow>
                     js_toLowerCase rt (js_trim rt (or_empty (fromString it)))
                       \<noteq> js_toLowerCase rt (or_empty (notFromName c)))
                  \<and> (truthy (toName c) \<longrightarrow>
                     js_toLowerCase rt (js_trim rt (or_empty t))
                       = js_toLowerCase rt (or_empty (toName c)))
                  \<and> (truthy (notToName c) \<longrightarrow>
                     js_toLowerCase rt (js_trim rt (or_empty t))
                       \<noteq> js_toLowerCase rt (or_empty (notToName c)))
               then Inr (bump m a) else Inr m)"
    by (auto simp: process_item_def fromOk_def toOk_def Let_def split: property.splits)
  show "(\<forall>s. is_ascii s \<longrightarrow> js_toLowerCase rt s = toLowerCase s) \<longrightarrow>
        (\<forall>x y. is_ascii x \<and> is_ascii y \<longrightarrow>
           (js_toLowerCase rt x = js_toLowerCase rt y \<longleftrightarrow> ci_equal x y))"
    by (simp add: toLowerCase_eq_iff)
qed

theorem transition_filter_matches_witness:
  "toLowerCase (trim '' in qa'') = toLowerCase ''In QA''
   \<and> toLowerCase (trim ''Done '') = toLowerCase ''done''
   \<and> toLowerCase (trim ''Done '') \<noteq> toLowerCase ''Open''
   \<and> process_item
        \<lparr>js_getTime = (\<lambda>s. None), js_toLowerCase = toLowerCase, js_trim = trim,
         js_notAFunction = ''(intermediate value).trim is not a function''\<rparr>
        \<lparr>fromName = Some ''In QA'', toName = Some ''done'', since = None, until = None,
         notFromName = Some '''', notToName = Some ''Open''\<rparr>
        ''alice'' [(''bob'', 1)]
        \<lparr>field = ''status'', fromString = Some '' in qa'', toString = Own (Some ''Done '')\<rparr>
      = Inr [(''bob'', 1), (''alice'', 1)]
   \<and> process_item
        \<lparr>js_getTime = (\<lambda>s. None), js_toLowerCase = toLowerCase, js_trim = trim,
         js_notAFunction = ''(intermediate value).trim is not a function''\<rparr>
        \<lparr>fromName = Some ''In QA'', toName = Some ''done'', since = None, until = None,
         notFromName = Some '''', notToName = Some ''Open''\<rparr>
        ''alice'' [(''bob'', 1)]
        \<lparr>field = ''status'', fromString = Some '' in qa'', toString = Own (Some ''Closed'')\<rparr>
      = Inr [(''bob'', 1)]
   \<and> process_item
        \<lparr>js_getTime = (\<lambda>s. None), js_toLowerCase = toLowerCase, js_trim = trim,
         js_notAFunction = ''(intermediate value).trim is not a function''\<rparr>
        \<lparr>fromName = Some ''In QA'', toName = Some ''done'', since = None, until = None,
         notFromName = Some '''', notToName = Some ''Open''\<rparr>
        ''alice'' [(''bob'', 1)]
        \<lparr>field = ''status'', fromString = Some '' in qa'', toString = Inherited\<rparr>
      = Inl (Error ''(intermediate value).trim is not a function'')
   \<and> is_ascii ''Done'' \<and> is_ascii ''done'' \<and> ci_equal ''Done'' ''done''"
proof -
  let ?R = "\<lparr>js_getTime = (\<lambda>s. None), js_toLowerCase = toLowerCase, js_trim = trim,
         js_notAFunction = ''(intermediate value).trim is not a function''\<rparr>"
  let ?c = "\<lparr>fromName = Some ''In QA'', toName = Some ''done'', since = None, until = None,
         notFromName = Some '''', notToName = Some ''Open''\<rparr>"
  let ?it = "\<lambda>t. \<lparr>field = ''status'', fromString = Some '' in qa'', toString = t\<rparr>"
  have 1: "toLowerCase (trim '' in qa'') = toLowerCase ''In QA''"
    by code_simp
  have 2: "toLowerCase (trim ''Done '') = toLowerCase ''done''"
    by code_simp
  have 3: "toLowerCase (trim ''Done '') \<noteq> toLowerCase ''Open''"
    by code_simp
  have 4: "toLowerCase (trim ''Closed'') \<noteq> toLowerCase ''done''"
    by code_simp
  have "process_item ?R ?c ''alice'' [(''bob'', 1)] (?it (Own (Some ''Done '')))
          = Inr (bump [(''bob'', 1)] ''alice'')"
    using 1 2 3
      transition_filter_matches [of ?R ?c "''alice''" "[(''bob'', 1)]" "?it (Own (Some ''Done ''))",
        THEN conjunct1]
    by (simp add: truthy_def or_empty_def)
  then have 5: "process_item ?R ?c ''alice'' [(''bob'', 1)] (?it (Own (Some ''Done '')))
          = Inr [(''bob'', 1), (''alice'', 1)]"
    by (simp add: bump_def count_or_zero_def)
  have 6: "process_item ?R ?c ''alice'' [(''bob'', 1)] (?it (Own (Some ''Closed'')))
          = Inr [(''bob'', 1)]"
    using 1 4
      transition_filter_matches [of ?R ?c "''alice''" "[(''bob'', 1)]" "?it (Own (Some ''Closed''))",
        THEN conjunct1]
    by (simp add: truthy_def or_empty_def)
  have 7: "process_item ?R ?c ''alice'' [(''bob'', 1)] (?it Inherited)
          = Inl (Error ''(intermediate value).trim is not a function'')"
    using transition_filter_matches [of ?R ?c "''alice''" "[(''bob'', 1)]" "?it Inherited",
        THEN conjunct1]
    by simp
  have 8: "is_ascii ''Done''" "is_ascii ''done''"
    by code_simp+
  have 9: "toLowerCase ''Done'' = toLowerCase ''done''"
    by code_simp
  have "\<forall>x y. is_ascii x \<and> is_ascii y \<longrightarrow>
           (js_toLowerCase ?R x = js_toLowerCase ?R y \<longleftrightarrow> ci_equal x y)"
    using transition_filter_matches [of ?R ?c "''alice''" "[(''bob'', 1)]" "?it Inherited",
        THEN conjunct2]
    by simp
  then have "js_toLowerCase ?R ''Done'' = js_toLowerCase ?R ''done'' \<longleftrightarrow> ci_equal ''Done'' ''done''"
    using 8 by blast
  then have 10: "ci_equal ''Done'' ''done''"
    using 9 by simp
  show ?thesis using 1 2 3 5 6 7 8 10 by simp
qed

text \<open>
  The constraint is not trimmed and the value of the item is. So an item whose \<open>fromString\<close>
  is the very string given as \<open>notFromName\<close> is counted, and an item whose \<open>fromString\<close> is
  the very string given as \<open>fromName\<close> is not, when that string ends with a space; and an
  item whose \<open>fromString\<close> differs from \<open>fromName\<close> by more than the case of letters (by
  the spaces around it) is counted.
\<close>

theorem transition_filter_not_exact:
  "ci_equal ''Open '' ''Open ''
   \<and> process_item
        \<lparr>js_getTime = (\<lambda>s. None), js_toLowerCase = toLowerCase, js_trim = trim,
         js_notAFunction = ''(intermediate value).trim is not a function''\<rparr>
        \<lparr>fromName = None, toName = None, since = None, until = None,
         notFromName = Some ''Open '', notToName = None\<rparr>
        ''alice'' []
        \<lparr>field = ''status'', fromString = Some ''Open '', toString = Own (Some ''Done'')\<rparr>
      = Inr [(''alice'', 1)]
   \<and> process_item
        \<lparr>js_getTime = (\<lambda>s. None), js_toLowerCase = toLowerCase, js_trim = trim,
         js_notAFunction = ''(intermediate value).trim is not a function''\<rparr>
        \<lparr>fromName = Some ''Open '', toName = None, since = None, until = None,
         notFromName = None, notToName = None\<rparr>
        ''alice'' []
        \<lparr>field = ''status'', fromString = Some ''Open '', toString = Own (Some ''Done'')\<rparr>
      = Inr []
   \<and> \<not> ci_equal ''  Open '' ''open''
   \<and> process_item
        \<lparr>js_getTime = (\<lambda>s. None), js_toLowerCase = toLowerCase, js_trim = trim,
         js_notAFunction = ''(intermediate value).trim is not a function''\<rparr>
        \<lparr>fromName = Some ''open'', toName = None, since = None, until = None,
         notFromName = None, notToName = None\<rparr>
        ''alice'' []
        \<lparr>field = ''status'', fromString = Some ''  Open '', toString = Own (Some ''Done'')\<rparr>
      = Inr [(''alice'', 1)]"
  by code_simp


text \<open>
  C2. When neither \<open>since\<close> nor \<open>until\<close> is supplied (absent or empty), the time check is
  skipped: the entry passes whatever its timestamp, also one that is not a date. When at
  least one is supplied, the entry passes exactly when its timestamp is a valid instant
  \<open>t\<close> with \<open>since \<le> t\<close> and \<open>t \<le> until\<close>, both inclusive, for each bound that is supplied;
  a bound that is not supplied is open (and so is a supplied bound that is not a valid
  instant, which the comparison with \<open>NaN\<close> never excludes).
\<close>

theorem window_filter:
  "window_ok getTime sinceV untilV ts \<longleftrightarrow>
     (if \<not> truthy sinceV \<and> \<not> truthy untilV then True
      else (\<exists>t. getTime ts = Some t
              \<and> (\<forall>s. truthy sinceV \<and> getTime (or_empty sinceV) = Some s \<longrightarrow> s \<le> t)
              \<and> (\<forall>u. truthy untilV \<and> getTime (or_empty untilV) = Some u \<longrightarrow> t \<le> u)))"
  by (auto simp: window_ok_def withinWindow_def js_lt_def js_gt_def split: option.splits)

theorem window_filter_witness:
  "window_ok (\<lambda>s. if s = ''d1'' then Some 100 else if s = ''d2'' then Some 200 else None)
      (Some ''d1'') (Some ''d2'') ''d1''
   \<and> window_ok (\<lambda>s. if s = ''d1'' then Some 100 else if s = ''d2'' then Some 200
       else None)
      (Some ''d1'') (Some ''d2'') ''d2''
   \<and> \<not> window_ok (\<lambda>s. if s = ''d1'' then Some 100 else if s = ''d2'' then Some 200
       else None)
      (Some ''d2'') None ''d1''
   \<and> \<not> window_ok (\<lambda>s. if s = ''d1'' then Some 100 else if s = ''d2'' then Some 200
       else None)
      None (Some ''d1'') ''d2''
   \<and> \<not> window_ok (\<lambda>s. if s = ''d1'' then Some 100 else if s = ''d2'' then Some 200
       else None)
      (Some ''d1'') None ''garbage''
   \<and> window_ok (\<lambda>s. if s = ''d1'' then Some 100 else if s = ''d2'' then Some 200
       else None)
      None (Some '''') ''garbage''"
  by (simp add: window_filter truthy_def or_empty_def)

section \<open>Sorting with a comparator\<close>

lemma consistentD_total: "consistent cmp \<Longrightarrow> cmp a b \<le> 0 \<or> cmp b a \<le> 0"
  unfolding consistent_def by blast

lemma consistentD_trans: "consistent cmp \<Longrightarrow> cmp a b \<le> 0 \<Longrightarrow> cmp b c \<le> 0 \<Longrightarrow> cmp a c \<le> 0"
  unfolding consistent_def by blast

lemma mset_insert_by: "mset (insert_by cmp x xs) = add_mset x (mset xs)"
  by (induction xs) auto

lemma mset_js_sort: "mset (js_sort cmp xs) = mset xs"
  by (induction xs) (auto simp: js_sort_def mset_insert_by)

lemma set_insert_by: "set (insert_by cmp x xs) = insert x (set xs)"
  by (induction xs) auto

lemma sorted_insert_by:
  assumes "consistent cmp" "sorted_wrt (\<lambda>a b. cmp a b \<le> 0) xs"
  shows "sorted_wrt (\<lambda>a b. cmp a b \<le> 0) (insert_by cmp x xs)"
  using assms(2)
proof (induction xs)
  case Nil
  then show ?case by simp
next
  case (Cons y ys)
  have ys: "\<forall>z\<in>set ys. cmp y z \<le> 0" "sorted_wrt (\<lambda>a b. cmp a b \<le> 0) ys"
    using Cons.prems by simp_all
  show ?case
  proof (cases "cmp x y \<le> 0")
    case True
    have "\<forall>z\<in>set ys. cmp x z \<le> 0"
      using ys(1) consistentD_trans[OF assms(1) True] by blast
    then show ?thesis using True ys by simp
  next
    case False
    then have "cmp y x \<le> 0" using consistentD_total[OF assms(1), of x y] by simp
    moreover have "sorted_wrt (\<lambda>a b. cmp a b \<le> 0) (insert_by cmp x ys)"
      using Cons.IH ys(2) by simp
    ultimately show ?thesis using False ys(1) by (simp add: set_insert_by)
  qed
qed

lemma sorted_js_sort:
  "consistent cmp \<Longrightarrow> sorted_wrt (\<lambda>a b. cmp a b \<le> 0) (js_sort cmp xs)"
  by (induction xs) (simp_all add: js_sort_def sorted_insert_by)

lemma sorted_unique:
  assumes "sorted_wrt R xs" "sorted_wrt R ys" "mset xs = mset ys"
    and "\<And>a b. a \<in> set xs \<Longrightarrow> b \<in> set xs \<Longrightarrow> R a b \<Longrightarrow> R b a \<Longrightarrow> a = b"
  shows "xs = ys"
  using assms
proof (induction xs arbitrary: ys)
  case Nil
  then show ?case by simp
next
  case (Cons x xs)
  then obtain y ys' where ys: "ys = y # ys'" by (cases ys) auto
  have "x \<in> set ys" using Cons.prems(3) by (metis list.set_intros(1) set_mset_mset)
  then have 1: "x = y \<or> R y x" using Cons.prems(2) ys by auto
  have y: "y \<in> set (x # xs)" using Cons.prems(3) ys by (metis list.set_intros(1) set_mset_mset)
  then have 2: "x = y \<or> R x y" using Cons.prems(1) by auto
  have xy: "x = y" using 1 2 y Cons.prems(4)[of x y] by auto
  then have "mset xs = mset ys'" using Cons.prems(3) ys by simp
  moreover have "\<And>a b. a \<in> set xs \<Longrightarrow> b \<in> set xs \<Longrightarrow> R a b \<Longrightarrow> R b a \<Longrightarrow> a = b"
    using Cons.prems(4) by simp
  ultimately have "xs = ys'" using Cons.IH[of ys'] Cons.prems(1,2) ys by simp
  then show ?case using xy ys by simp
qed

lemma user_cmp_le:
  "user_cmp lc a b \<le> 0 \<longleftrightarrow> countN b < countN a \<or> (countN a = countN b \<and> lc (user a) (user b) \<le> 0)"
  by (auto simp: user_cmp_def)

lemma pair_cmp_le:
  "pair_cmp lc a b \<le> 0 \<longleftrightarrow> t_count b < t_count a \<or> (t_count a = t_count b \<and> lc (pair_key a) (pair_key b) \<le> 0)"
  by (auto simp: pair_cmp_def)

lemma consistent_lex:
  assumes "consistent lc"
    and le: "\<And>a b. cmp a b \<le> 0 \<longleftrightarrow> (n b :: nat) < n a \<or> (n a = n b \<and> lc (k a) (k b) \<le> 0)"
  shows "consistent cmp"
proof -
  have 1: "cmp a b \<le> 0 \<or> cmp b a \<le> 0" for a b
    using consistentD_total[OF assms(1), of "k a" "k b"] by (auto simp: le)
  have 2: "cmp a c \<le> 0" if "cmp a b \<le> 0" "cmp b c \<le> 0" for a b c
  proof -
    have ab: "n b < n a \<or> (n a = n b \<and> lc (k a) (k b) \<le> 0)" using that(1) by (simp add: le)
    have bc: "n c < n b \<or> (n b = n c \<and> lc (k b) (k c) \<le> 0)" using that(2) by (simp add: le)
    have "n c < n a \<or> (n a = n c \<and> lc (k a) (k c) \<le> 0)"
      using ab bc consistentD_trans[OF assms(1), of "k a" "k b" "k c"] by auto
    then show ?thesis by (simp add: le)
  qed
  show ?thesis
    unfolding consistent_def
  proof (intro conjI allI impI)
    fix a b show "cmp a b \<le> 0 \<or> cmp b a \<le> 0" by (rule 1)
  next
    fix a b c assume "cmp a b \<le> 0 \<and> cmp b c \<le> 0"
    then show "cmp a c \<le> 0" using 2[of a b c] by simp
  qed
qed

lemma consistent_user_cmp:
  assumes "consistent lc"
  shows "consistent (user_cmp lc)"
  using assms
proof (rule consistent_lex[where lc = lc and n = countN and k = user])
  fix a b
  show "user_cmp lc a b \<le> 0 \<longleftrightarrow> countN b < countN a \<or> (countN a = countN b \<and> lc (user a) (user b) \<le> 0)"
    by (rule user_cmp_le)
qed

lemma consistent_pair_cmp:
  assumes "consistent lc"
  shows "consistent (pair_cmp lc)"
  using assms
proof (rule consistent_lex[where lc = lc and n = t_count and k = pair_key])
  fix a b
  show "pair_cmp lc a b \<le> 0 \<longleftrightarrow> t_count b < t_count a \<or> (t_count a = t_count b \<and> lc (pair_key a) (pair_key b) \<le> 0)"
    by (rule pair_cmp_le)
qed

lemma sorted_wrt_slice0: "sorted_wrt R xs \<Longrightarrow> sorted_wrt R (slice0 xs e)"
  by (simp add: slice0_def sorted_wrt_take)

lemma length_slice0:
  "length (slice0 xs e) = (if e < 0 then length xs - nat (- e) else min (nat e) (length xs))"
  by (auto simp: slice0_def)

lemma take_length_take: "take (length (take n xs)) xs = take n xs"
proof (cases "n \<le> length xs")
  case True
  then show ?thesis by (simp add: min_absorb2)
next
  case False
  then show ?thesis by (simp add: min_absorb1)
qed

lemma slice0_take: "slice0 xs e = take (length (slice0 xs e)) xs"
  unfolding slice0_def by (simp only: take_length_take if_distrib[of length] if_distrib[of "\<lambda>n. take n xs"] if_cancel split: if_splits)

lemma length_rank: "length (rank lc m) = length m"
  by (metis rank_def mset_js_sort size_mset length_map)

lemma length_rank_pairs: "length (rank_pairs lc m) = length m"
  by (metis rank_pairs_def mset_js_sort size_mset length_map)

text \<open>
  The sort is stable: the entries that the comparator reports as equal to a given one keep
  the order they had before the sort.
\<close>

lemma filter_insert_by:
  assumes "consistent cmp"
  shows "filter (\<lambda>y. cmp x0 y \<le> 0 \<and> cmp y x0 \<le> 0) (insert_by cmp x xs)
         = (if cmp x0 x \<le> 0 \<and> cmp x x0 \<le> 0
            then x # filter (\<lambda>y. cmp x0 y \<le> 0 \<and> cmp y x0 \<le> 0) xs
            else filter (\<lambda>y. cmp x0 y \<le> 0 \<and> cmp y x0 \<le> 0) xs)"
proof (induction xs)
  case Nil
  then show ?case by simp
next
  case (Cons y ys)
  show ?case
  proof (cases "cmp x y \<le> 0")
    case True
    then show ?thesis by simp
  next
    case False
    have "\<not> ((cmp x0 x \<le> 0 \<and> cmp x x0 \<le> 0) \<and> (cmp x0 y \<le> 0 \<and> cmp y x0 \<le> 0))"
      using False consistentD_trans[OF assms, of x x0 y] by blast
    then show ?thesis using False Cons.IH by auto
  qed
qed

lemma filter_js_sort:
  assumes "consistent cmp"
  shows "filter (\<lambda>y. cmp x0 y \<le> 0 \<and> cmp y x0 \<le> 0) (js_sort cmp xs)
         = filter (\<lambda>y. cmp x0 y \<le> 0 \<and> cmp y x0 \<le> 0) xs"
proof (induction xs)
  case Nil
  then show ?case by (simp add: js_sort_def)
next
  case (Cons x xs)
  have "js_sort cmp (x # xs) = insert_by cmp x (js_sort cmp xs)"
    by (simp add: js_sort_def)
  then show ?case
    using Cons.IH by (simp add: filter_insert_by[OF assms])
qed

text \<open>
  Comparators of strings: the comparison by characters, and the comparison by characters
  of a key of the string, such as the string without regard to the case of ASCII letters.
  They are consistent.
\<close>

lemma lex_consistent: "consistent (\<lambda>a b :: string. if a < b then - 1 else if a = b then 0
    else 1)"
  unfolding consistent_def by (auto split: if_splits)

lemma key_consistent:
  "consistent (\<lambda>a b :: string. if (f a :: string) < f b then - 1 else if f a = f b then 0 else 1)"
  unfolding consistent_def by (auto split: if_splits)

lemma caseless_consistent:
  "consistent (\<lambda>a b :: string. if toLowerCase a < toLowerCase b then - 1
      else if toLowerCase a = toLowerCase b then 0 else 1)"
  by (rule key_consistent)

text \<open>Splitting a pair key at the arrow.\<close>

lemma split_from_no_arrow:
  "CHR 0xE2 \<notin> set s \<Longrightarrow> split_from arrow cur s = [cur @ s]"
proof (induction s arbitrary: cur)
  case Nil
  then show ?case by (subst split_from.simps) simp
next
  case (Cons x xs)
  have "\<not> startsWith (x # xs) arrow"
    using Cons.prems by (auto simp: startsWith_def arrow_def)
  then have "split_from arrow cur (x # xs) = split_from arrow (cur @ [x]) xs"
    by (subst split_from.simps) simp
  then show ?case using Cons by simp
qed

lemma split_from_arrow:
  "CHR 0xE2 \<notin> set f \<Longrightarrow>
     split_from arrow cur (f @ arrow @ t) = (cur @ f) # split_from arrow [] t"
proof (induction f arbitrary: cur)
  case Nil
  have "startsWith (arrow @ t) arrow" "arrow \<noteq> []" "arrow @ t \<noteq> []"
    by (simp_all add: startsWith_def arrow_def)
  then show ?case by (subst split_from.simps) simp
next
  case (Cons x xs)
  have "\<not> startsWith ((x # xs) @ arrow @ t) arrow"
    using Cons.prems by (auto simp: startsWith_def arrow_def)
  then have "split_from arrow cur ((x # xs) @ arrow @ t)
      = split_from arrow (cur @ [x]) (xs @ arrow @ t)"
    by (subst split_from.simps) simp
  then show ?case using Cons by simp
qed

lemma split_pair_key:
  assumes "CHR 0xE2 \<notin> set f" "CHR 0xE2 \<notin> set t"
  shows "split (f @ arrow @ t) arrow = [f, t]"
  using split_from_arrow[OF assms(1), of "[]" t] split_from_no_arrow[OF assms(2), of "[]"]
  by (simp add: split_def)

lemma to_transition_pair:
  assumes "CHR 0xE2 \<notin> set f" "CHR 0xE2 \<notin> set t"
  shows "to_transition (f @ arrow @ t, n) = \<lparr>t_from = f, t_to = Some t, t_count = n\<rparr>"
  by (simp add: to_transition_def split_pair_key[OF assms])

section \<open>The ranked result\<close>

text \<open>
  C3. The ranked result is sorted by count descending, and two entries with equal counts
  are in ascending order of their key: the user name, or in discovery mode the pair
  string \<open>from\<rightarrow>to\<close>. The order of keys is the one of \<open>localeCompare\<close>, the collation of
  the runtime, taken as a consistent comparator; it need not be the order of the strings
  by their characters. Entries of equal count whose keys the collation reports as equal
  keep the order in which the tally holds them (the sort is stable). The result is the
  ranking of the whole tally cut by \<open>slice(0, limit)\<close>: a prefix of the ranking, of
  \<open>limit\<close> entries when the ranking has that many (for a negative \<open>limit\<close>, the ranking
  without its last \<open>-limit\<close> entries), and the ranking holds exactly the entries of the
  tally. In discovery mode the entries are the keys of the tally split at the arrow, the
  limit is capped at 100, and the key compared is the pair string built again from the
  entry: for a from and a to value that hold no byte \<open>0xE2\<close> (the first byte of the arrow;
  so for all ASCII names) the entry of the key \<open>from\<rightarrow>to\<close> has that from and that to value,
  and its pair string is the key.
\<close>

theorem ranked_result_sorted:
  assumes "consistent lc"
  shows "sorted_wrt
      (\<lambda>a b. countN b \<le> countN a \<and> (countN a = countN b \<longrightarrow> lc (user a) (user b) \<le> 0))
           (slice0 (rank lc m) lmt)
       \<and> slice0 (rank lc m) lmt = take (length (slice0 (rank lc m) lmt)) (rank lc m)
       \<and> length (slice0 (rank lc m) lmt)
           = (if lmt < 0 then length m - nat (- lmt) else min (nat lmt) (length m))
       \<and> mset (rank lc m) = mset (map (\<lambda>(u, n).
           \<lparr>user = u, countN = n\<rparr>) m)
       \<and> filter (\<lambda>y. countN y = countN (x :: entry) \<and> lc (user x) (user y) \<le> 0 \<and> lc (user y) (user x) \<le> 0)
             (rank lc m)
           = filter (\<lambda>y. countN y = countN (x :: entry) \<and> lc (user x) (user y) \<le> 0 \<and> lc (user y) (user x) \<le> 0)
               (map (\<lambda>(u, n). \<lparr>user = u, countN = n\<rparr>) m)
       \<and> sorted_wrt
           (\<lambda>a b. t_count b \<le> t_count a \<and> (t_count a = t_count b \<longrightarrow> lc (pair_key a) (pair_key b) \<le> 0))
           (slice0 (rank_pairs lc ps) (min lmt 100))
       \<and> slice0 (rank_pairs lc ps) (min lmt 100)
           = take (length (slice0 (rank_pairs lc ps) (min lmt 100))) (rank_pairs lc ps)
       \<and> length (slice0 (rank_pairs lc ps) (min lmt 100))
           = (if lmt < 0 then length ps - nat (- lmt) else min (nat (min lmt 100)) (length ps))
       \<and> mset (rank_pairs lc ps) = mset (map to_transition ps)
       \<and> filter (\<lambda>y. t_count y = t_count (z :: transition) \<and> lc (pair_key z) (pair_key y) \<le> 0
                      \<and> lc (pair_key y) (pair_key z) \<le> 0)
             (rank_pairs lc ps)
           = filter (\<lambda>y. t_count y = t_count (z :: transition) \<and> lc (pair_key z) (pair_key y) \<le> 0
                      \<and> lc (pair_key y) (pair_key z) \<le> 0)
               (map to_transition ps)
       \<and> (CHR 0xE2 \<notin> set f \<and> CHR 0xE2 \<notin> set t \<longrightarrow>
            to_transition (f @ arrow @ t, n) = \<lparr>t_from = f, t_to = Some t, t_count = n\<rparr>
            \<and> pair_key (to_transition (f @ arrow @ t, n)) = f @ arrow @ t)"
proof -
  have "sorted_wrt (\<lambda>a b. user_cmp lc a b \<le> 0) (rank lc m)"
    unfolding rank_def using assms by (intro sorted_js_sort consistent_user_cmp)
  then have "sorted_wrt (\<lambda>a b. user_cmp lc a b \<le> 0) (slice0 (rank lc m) lmt)"
    by (rule sorted_wrt_slice0)
  then have 1: "sorted_wrt
      (\<lambda>a b. countN b \<le> countN a \<and> (countN a = countN b \<longrightarrow> lc (user a) (user b) \<le> 0))
           (slice0 (rank lc m) lmt)"
    by (rule sorted_wrt_mono_rel[rotated]) (auto simp: user_cmp_le)
  have "sorted_wrt (\<lambda>a b. pair_cmp lc a b \<le> 0) (rank_pairs lc ps)"
    unfolding rank_pairs_def using assms by (intro sorted_js_sort consistent_pair_cmp)
  then have "sorted_wrt
      (\<lambda>a b. pair_cmp lc a b \<le> 0) (slice0 (rank_pairs lc ps) (min lmt 100))"
    by (rule sorted_wrt_slice0)
  then have 2: "sorted_wrt
      (\<lambda>a b. t_count b \<le> t_count a \<and> (t_count a = t_count b \<longrightarrow> lc (pair_key a) (pair_key b) \<le> 0))
           (slice0 (rank_pairs lc ps) (min lmt 100))"
    by (rule sorted_wrt_mono_rel[rotated]) (auto simp: pair_cmp_le)
  have 3: "mset (rank lc m) = mset (map (\<lambda>(u, n). \<lparr>user = u, countN = n\<rparr>) m)"
    by (simp add: rank_def mset_js_sort)
  have 4: "length (slice0 (rank lc m) lmt)
           = (if lmt < 0 then length m - nat (- lmt) else min (nat lmt) (length m))"
    by (simp add: length_slice0 length_rank)
  have 5: "length (slice0 (rank_pairs lc ps) (min lmt 100))
           = (if lmt < 0 then length ps - nat (- lmt) else min (nat (min lmt 100)) (length ps))"
    by (simp add: length_slice0 length_rank_pairs min_def)
  have 6: "mset (rank_pairs lc ps) = mset (map to_transition ps)"
    by (simp add: rank_pairs_def mset_js_sort)
  have eu: "(\<lambda>y. countN y = countN (x :: entry) \<and> lc (user x) (user y) \<le> 0 \<and> lc (user y) (user x) \<le> 0)
      = (\<lambda>y. user_cmp lc x y \<le> 0 \<and> user_cmp lc y x \<le> 0)"
    by (auto simp: user_cmp_le fun_eq_iff)
  have 7: "filter (\<lambda>y. countN y = countN (x :: entry) \<and> lc (user x) (user y) \<le> 0 \<and> lc (user y) (user x) \<le> 0)
             (rank lc m)
           = filter (\<lambda>y. countN y = countN (x :: entry) \<and> lc (user x) (user y) \<le> 0 \<and> lc (user y) (user x) \<le> 0)
               (map (\<lambda>(u, n). \<lparr>user = u, countN = n\<rparr>) m)"
    unfolding eu rank_def by (rule filter_js_sort[OF consistent_user_cmp[OF assms]])
  have ep: "(\<lambda>y. t_count y = t_count (z :: transition) \<and> lc (pair_key z) (pair_key y) \<le> 0
                      \<and> lc (pair_key y) (pair_key z) \<le> 0)
      = (\<lambda>y. pair_cmp lc z y \<le> 0 \<and> pair_cmp lc y z \<le> 0)"
    by (auto simp: pair_cmp_le fun_eq_iff)
  have 8: "filter (\<lambda>y. t_count y = t_count (z :: transition) \<and> lc (pair_key z) (pair_key y) \<le> 0
                      \<and> lc (pair_key y) (pair_key z) \<le> 0)
             (rank_pairs lc ps)
           = filter (\<lambda>y. t_count y = t_count (z :: transition) \<and> lc (pair_key z) (pair_key y) \<le> 0
                      \<and> lc (pair_key y) (pair_key z) \<le> 0)
               (map to_transition ps)"
    unfolding ep rank_pairs_def by (rule filter_js_sort[OF consistent_pair_cmp[OF assms]])
  have 9: "CHR 0xE2 \<notin> set f \<and> CHR 0xE2 \<notin> set t \<longrightarrow>
            to_transition (f @ arrow @ t, n) = \<lparr>t_from = f, t_to = Some t, t_count = n\<rparr>
            \<and> pair_key (to_transition (f @ arrow @ t, n)) = f @ arrow @ t"
    by (simp add: to_transition_pair pair_key_def)
  show ?thesis
    using 1 2 3 4 5 6 7 8 9 slice0_take[of "rank lc m" lmt]
      slice0_take[of "rank_pairs lc ps" "min lmt 100"]
    by blast
qed

theorem ranked_result_sorted_witness:
  "consistent (\<lambda>a b :: string. if toLowerCase a < toLowerCase b then - 1
      else if toLowerCase a = toLowerCase b then 0 else 1)
   \<and> slice0 (rank (\<lambda>a b :: string. if toLowerCase a < toLowerCase b then - 1
         else if toLowerCase a = toLowerCase b then 0 else 1)
       [(''bob'', 1), (''alice'', 2), (''Zoe'', 1), (''al'', 1), (''AL'', 1)]) 4
       = [\<lparr>user = ''alice'', countN = 2\<rparr>, \<lparr>user = ''al'', countN = 1\<rparr>,
           \<lparr>user = ''AL'', countN = 1\<rparr>, \<lparr>user = ''bob'', countN = 1\<rparr>]
   \<and> sorted_wrt (\<lambda>a b. countN b \<le> countN a \<and>
          (countN a = countN b \<longrightarrow> (\<lambda>a b :: string. if toLowerCase a < toLowerCase b then - 1
              else if toLowerCase a = toLowerCase b then 0 else 1) (user a) (user b) \<le> (0 :: int)))
        (slice0 (rank (\<lambda>a b :: string. if toLowerCase a < toLowerCase b then - 1
            else if toLowerCase a = toLowerCase b then 0 else 1)
          [(''bob'', 1), (''alice'', 2), (''Zoe'', 1), (''al'', 1), (''AL'', 1)]) 4)
   \<and> slice0 (rank_pairs (\<lambda>a b :: string. if toLowerCase a < toLowerCase b then - 1
         else if toLowerCase a = toLowerCase b then 0 else 1)
       [(''Open'' @ arrow @ ''Done'', 1), (''In QA'' @ arrow @ ''Done'', 2),
        (''In QA'' @ arrow @ ''Closed'', 1)]) (min 4 100)
       = [\<lparr>t_from = ''In QA'', t_to = Some ''Done'', t_count = 2\<rparr>,
          \<lparr>t_from = ''In QA'', t_to = Some ''Closed'', t_count = 1\<rparr>,
          \<lparr>t_from = ''Open'', t_to = Some ''Done'', t_count = 1\<rparr>]
   \<and> sorted_wrt (\<lambda>a b. t_count b \<le> t_count a \<and>
          (t_count a = t_count b \<longrightarrow> (\<lambda>a b :: string. if toLowerCase a < toLowerCase b then - 1
              else if toLowerCase a = toLowerCase b then 0 else 1) (pair_key a) (pair_key b) \<le> (0 :: int)))
        (slice0 (rank_pairs (\<lambda>a b :: string. if toLowerCase a < toLowerCase b then - 1
            else if toLowerCase a = toLowerCase b then 0 else 1)
          [(''Open'' @ arrow @ ''Done'', 1), (''In QA'' @ arrow @ ''Done'', 2),
           (''In QA'' @ arrow @ ''Closed'', 1)]) (min 4 100))
   \<and> CHR 0xE2 \<notin> set ''In QA'' \<and> CHR 0xE2 \<notin> set ''Done''
   \<and> to_transition (''In QA'' @ arrow @ ''Done'', 2)
       = \<lparr>t_from = ''In QA'', t_to = Some ''Done'', t_count = 2\<rparr>
   \<and> pair_key (to_transition (''In QA'' @ arrow @ ''Done'', 2)) = ''In QA'' @ arrow @ ''Done''"
proof -
  let ?lc = "\<lambda>a b :: string. if toLowerCase a < toLowerCase b then - 1
      else if toLowerCase a = toLowerCase b then 0 else (1 :: int)"
  let ?m = "[(''bob'', 1), (''alice'', 2), (''Zoe'', 1), (''al'', 1), (''AL'', 1)]"
  let ?ps = "[(''Open'' @ arrow @ ''Done'', 1), (''In QA'' @ arrow @ ''Done'', 2),
        (''In QA'' @ arrow @ ''Closed'', 1)]"
  note T = ranked_result_sorted [OF caseless_consistent, of ?m 4 _ ?ps _ "''In QA''" "''Done''" 2]
  have u: "slice0 (rank ?lc ?m) 4
       = [\<lparr>user = ''alice'', countN = 2\<rparr>, \<lparr>user = ''al'', countN = 1\<rparr>,
           \<lparr>user = ''AL'', countN = 1\<rparr>, \<lparr>user = ''bob'', countN = 1\<rparr>]"
    by code_simp
  have p: "slice0 (rank_pairs ?lc ?ps) (min 4 100)
       = [\<lparr>t_from = ''In QA'', t_to = Some ''Done'', t_count = 2\<rparr>,
          \<lparr>t_from = ''In QA'', t_to = Some ''Closed'', t_count = 1\<rparr>,
          \<lparr>t_from = ''Open'', t_to = Some ''Done'', t_count = 1\<rparr>]"
    by code_simp
  have s1: "sorted_wrt (\<lambda>a b. countN b \<le> countN a \<and>
          (countN a = countN b \<longrightarrow> ?lc (user a) (user b) \<le> (0 :: int)))
        (slice0 (rank ?lc ?m) 4)"
    using T by blast
  have s2: "sorted_wrt (\<lambda>a b. t_count b \<le> t_count a \<and>
          (t_count a = t_count b \<longrightarrow> ?lc (pair_key a) (pair_key b) \<le> (0 :: int)))
        (slice0 (rank_pairs ?lc ?ps) (min 4 100))"
    using T by blast
  have n: "CHR 0xE2 \<notin> set ''In QA''" "CHR 0xE2 \<notin> set ''Done''"
    by simp_all
  have t: "to_transition (''In QA'' @ arrow @ ''Done'', 2)
       = \<lparr>t_from = ''In QA'', t_to = Some ''Done'', t_count = 2\<rparr>
     \<and> pair_key (to_transition (''In QA'' @ arrow @ ''Done'', 2)) = ''In QA'' @ arrow @ ''Done''"
    using T n by blast
  show ?thesis
    using caseless_consistent u p s1 s2 n t by blast
qed

text \<open>
  The order of the ties is the one of the collation, not the order of the strings by
  their characters. With a collation that compares names without regard to case, as the
  collation of the runtime does with these three names, \<open>al\<close> and \<open>bob\<close> come before \<open>Zoe\<close>,
  although \<open>Zoe\<close> is the least of the three by its characters.
\<close>

theorem ranked_ties_not_lexicographic:
  "(''Zoe'' :: string) < ''al'' \<and> (''Zoe'' :: string) < ''bob''
   \<and> slice0 (rank (\<lambda>a b :: string. if toLowerCase a < toLowerCase b then - 1
         else if toLowerCase a = toLowerCase b then 0 else 1)
       [(''Zoe'', 1), (''al'', 1), (''bob'', 1)]) 20
       = [\<lparr>user = ''al'', countN = 1\<rparr>, \<lparr>user = ''bob'', countN = 1\<rparr>,
          \<lparr>user = ''Zoe'', countN = 1\<rparr>]
   \<and> \<not> sorted_wrt (\<lambda>a b. user a \<le> user b)
        (slice0 (rank (\<lambda>a b :: string. if toLowerCase a < toLowerCase b then - 1
            else if toLowerCase a = toLowerCase b then 0 else 1)
          [(''Zoe'', 1), (''al'', 1), (''bob'', 1)]) 20)"
  by code_simp


section \<open>The tally as a count of names\<close>

lemma Map_get_Map_set: "Map_get (Map_set m k v) k' = (if k' = k then Some v else Map_get m k')"
  by (induction m k v rule: Map_set.induct) auto

lemma keys_Map_set:
  "map fst (Map_set m k v) = (if k \<in> fst ` set m then map fst m else map fst m @ [k])"
  by (induction m k v rule: Map_set.induct) force+

lemma set_Map_set_snd: "e \<in> set (Map_set m k v) \<Longrightarrow> snd e = v \<or> e \<in> set m"
  by (induction m k v rule: Map_set.induct) (auto split: if_splits)

lemma count_or_zero_bump:
  "count_or_zero (bump m a) k = count_or_zero m k + (if k = a then 1 else 0)"
  by (simp add: bump_def count_or_zero_def Map_get_Map_set)

lemma tally_inv_bump:
  assumes inv: "tally_inv m"
  shows "tally_inv (bump m a)"
proof -
  have d: "distinct (map fst (bump m a))"
    using inv by (simp add: bump_def keys_Map_set tally_inv_def)
  have "0 < snd e" if "e \<in> set (bump m a)" for e
  proof -
    have "snd e = count_or_zero m a + 1 \<or> e \<in> set m"
      using that unfolding bump_def by (rule set_Map_set_snd)
    then show ?thesis using inv by (auto simp: tally_inv_def list_all_iff)
  qed
  then show ?thesis using d by (simp add: tally_inv_def list_all_iff)
qed

lemma count_or_zero_Cons:
  "count_or_zero ((k', n') # m) k = (if k' = k then n' else count_or_zero m k)"
  by (simp add: count_or_zero_def)

lemma count_or_zero_absent: "k \<notin> fst ` set m \<Longrightarrow> count_or_zero m k = 0"
  by (induction m) (auto simp: count_or_zero_def)

lemma tally_inv_mem_iff:
  assumes "tally_inv m"
  shows "(k, n) \<in> set m \<longleftrightarrow> 0 < n \<and> count_or_zero m k = n"
  using assms
proof (induction m)
  case Nil
  then show ?case by (auto simp: count_or_zero_def)
next
  case (Cons e m)
  obtain k' n' where e: "e = (k', n')" by (cases e)
  have inv: "tally_inv m" and k': "k' \<notin> fst ` set m" and n': "0 < n'"
    using Cons.prems e by (auto simp: tally_inv_def)
  show ?case
  proof (cases "k' = k")
    case True
    then have "(k, n) \<notin> set m" using k' by force
    then show ?thesis using True e n' by (auto simp: count_or_zero_Cons)
  next
    case False
    then show ?thesis using Cons.IH[OF inv] e by (auto simp: count_or_zero_Cons)
  qed
qed

lemma tally_eq_mset:
  assumes "tally_inv m1" "tally_inv m2" "\<And>k. count_or_zero m1 k = count_or_zero m2 k"
  shows "mset m1 = mset m2"
proof -
  have "set m1 = set m2"
    using tally_inv_mem_iff[OF assms(1)] tally_inv_mem_iff[OF assms(2)] assms(3) by auto
  moreover have "distinct m1" "distinct m2"
    using assms(1,2) by (auto simp: tally_inv_def dest: distinct_map[THEN iffD1])
  ultimately show ?thesis by (simp add: set_eq_iff_mset_eq_distinct)
qed

text \<open>The loops over the remote data are uniform.\<close>

lemma for_of_append:
  "for_of bd s (xs @ ys) = (case for_of bd s xs of Inl e \<Rightarrow> Inl e | Inr s' \<Rightarrow> for_of bd s' ys)"
  by (induction xs arbitrary: s) (simp_all split: sum.splits)

lemma uniformD:
  assumes "uniform e bd"
  shows "(\<forall>m. bd m x = Inl e) \<or>
         (\<exists>d. \<forall>m. \<exists>m'. bd m x = Inr m' \<and> (tally_inv m \<longrightarrow> tally_inv m')
                \<and> (\<forall>k. count_or_zero m' k = count_or_zero m k + d k))"
  using assms unfolding uniform_def by blast

lemma uniform_for_of_list:
  assumes u: "uniform e bd"
  shows "(\<forall>m. for_of bd m xs = Inl e) \<or>
         (\<exists>d. \<forall>m. \<exists>m'. for_of bd m xs = Inr m' \<and> (tally_inv m \<longrightarrow> tally_inv m')
                \<and> (\<forall>k. count_or_zero m' k = count_or_zero m k + d k))"
proof (induction xs)
  case Nil
  show ?case by (intro disjI2 exI[of _ "\<lambda>k. 0"]) simp
next
  case (Cons x xs)
  show ?case
  proof (cases "\<forall>m. bd m x = Inl e")
    case True
    then show ?thesis by simp
  next
    case False
    then obtain d1 where d1: "\<And>m. \<exists>m'. bd m x = Inr m' \<and> (tally_inv m \<longrightarrow> tally_inv m')
                \<and> (\<forall>k. count_or_zero m' k = count_or_zero m k + d1 k)"
      using uniformD[OF u, of x] by blast
    show ?thesis
    proof (cases "\<forall>m. for_of bd m xs = Inl e")
      case True
      have "for_of bd m (x # xs) = Inl e" for m
        using d1[of m] True by auto
      then show ?thesis by blast
    next
      case False
      then obtain d2 where d2: "\<And>m. \<exists>m'. for_of bd m xs = Inr m' \<and> (tally_inv m \<longrightarrow> tally_inv m')
                \<and> (\<forall>k. count_or_zero m' k = count_or_zero m k + d2 k)"
        using Cons.IH by blast
      have "\<exists>m'. for_of bd m (x # xs) = Inr m' \<and> (tally_inv m \<longrightarrow> tally_inv m')
                \<and> (\<forall>k. count_or_zero m' k = count_or_zero m k + (d1 k + d2 k))" for m
      proof -
        obtain m1 where m1: "bd m x = Inr m1" "tally_inv m \<longrightarrow> tally_inv m1"
            "\<forall>k. count_or_zero m1 k = count_or_zero m k + d1 k"
          using d1[of m] by blast
        obtain m2 where m2: "for_of bd m1 xs = Inr m2" "tally_inv m1 \<longrightarrow> tally_inv m2"
            "\<forall>k. count_or_zero m2 k = count_or_zero m1 k + d2 k"
          using d2[of m1] by blast
        show ?thesis using m1 m2 by simp
      qed
      then show ?thesis by (intro disjI2 exI[of _ "\<lambda>k. d1 k + d2 k"]) simp
    qed
  qed
qed

lemma uniform_for_of: "uniform e bd \<Longrightarrow> uniform e (for_of bd)"
  using uniform_for_of_list[of e bd] unfolding uniform_def[of e "for_of bd"] by blast

lemma uniform_process_item: "uniform (Error (js_notAFunction rt)) (process_item rt c a)"
  unfolding uniform_def
proof
  fix it
  show "(\<forall>m. process_item rt c a m it = Inl (Error (js_notAFunction rt))) \<or>
        (\<exists>d. \<forall>m. \<exists>m'. process_item rt c a m it = Inr m' \<and> (tally_inv m \<longrightarrow> tally_inv m')
                \<and> (\<forall>k. count_or_zero m' k = count_or_zero m k + d k))"
  proof (cases "field it = ''status''")
    case False
    then show ?thesis
      by (intro disjI2 exI[of _ "\<lambda>k. 0"]) (simp add: process_item_def)
  next
    case status: True
    show ?thesis
    proof (cases "toString it")
      case Inherited
      then show ?thesis using status by (simp add: process_item_def)
    next
      case (Own t)
      show ?thesis
      proof (cases "fromOk rt c (js_trim rt (or_empty (fromString it)))
                    \<and> toOk rt c (js_trim rt (or_empty t))")
        case True
        then show ?thesis
          using status Own
          by (intro disjI2 exI[of _ "\<lambda>k. if k = a then 1 else 0"])
             (simp add: process_item_def tally_inv_bump count_or_zero_bump)
      next
        case False
        then show ?thesis
          using status Own
          by (intro disjI2 exI[of _ "\<lambda>k. 0"]) (auto simp: process_item_def)
      qed
    qed
  qed
qed

lemma uniform_process_history: "uniform (Error (js_notAFunction rt)) (process_history rt c)"
  unfolding uniform_def
proof
  fix h
  show "(\<forall>m. process_history rt c m h = Inl (Error (js_notAFunction rt))) \<or>
        (\<exists>d. \<forall>m. \<exists>m'. process_history rt c m h = Inr m' \<and> (tally_inv m \<longrightarrow> tally_inv m')
                \<and> (\<forall>k. count_or_zero m' k = count_or_zero m k + d k))"
  proof (cases "window_ok (js_getTime rt) (since c) (until c) (created h)")
    case True
    then show ?thesis
      using uniform_for_of_list[OF uniform_process_item[of rt c "authorName_of h"],
          of "case items h of None \<Rightarrow> [] | Some its \<Rightarrow> its"]
      by (simp add: process_history_def)
  next
    case False
    then show ?thesis
      by (intro disjI2 exI[of _ "\<lambda>k. 0"]) (simp add: process_history_def)
  qed
qed

lemma uniform_Inr:
  assumes "uniform e bd" "for_of bd m xs = Inr m1"
  shows "\<exists>m2. for_of bd m' xs = Inr m2"
  using uniform_for_of_list[OF assms(1), of xs] assms(2) by (metis sum.distinct(1))

text \<open>
  A uniform loop over a permutation of the list: it throws when the loop over the list
  does, and otherwise it ends with the same entries in the tally.
\<close>

lemma for_of_sum:
  assumes good: "\<And>x m. x \<in> set xs \<Longrightarrow> \<exists>m'. bd m x = Inr m' \<and> (tally_inv m \<longrightarrow> tally_inv m')
                \<and> (\<forall>k. count_or_zero m' k = count_or_zero m k + D x k)"
  shows "\<exists>m'. for_of bd m xs = Inr m' \<and> (tally_inv m \<longrightarrow> tally_inv m')
                \<and> (\<forall>k. count_or_zero m' k = count_or_zero m k + sum_list (map (\<lambda>x. D x k) xs))"
  using good
proof (induction xs arbitrary: m)
  case Nil
  then show ?case by simp
next
  case (Cons x xs)
  obtain m1 where m1: "bd m x = Inr m1" "tally_inv m \<longrightarrow> tally_inv m1"
            "\<forall>k. count_or_zero m1 k = count_or_zero m k + D x k"
    using Cons.prems[of x m] by auto
  obtain m2 where m2: "for_of bd m1 xs = Inr m2" "tally_inv m1 \<longrightarrow> tally_inv m2"
            "\<forall>k. count_or_zero m2 k = count_or_zero m1 k + sum_list (map (\<lambda>x. D x k) xs)"
    using Cons.IH[of m1] Cons.prems by auto
  show ?case using m1 m2 by simp
qed

lemma for_of_bad:
  assumes "x \<in> set xs" "\<forall>m. bd m x = Inl e" "uniform e bd"
  shows "for_of bd m xs = Inl e"
  using assms(1)
proof (induction xs arbitrary: m)
  case Nil
  then show ?case by simp
next
  case (Cons y ys)
  show ?case
  proof (cases "\<forall>m. bd m y = Inl e")
    case True
    then show ?thesis by simp
  next
    case False
    then obtain m1 where m1: "bd m y = Inr m1"
      using uniformD[OF assms(3), of y] by blast
    have "x \<noteq> y" using False assms(2) by blast
    then have "x \<in> set ys" using Cons.prems by simp
    then show ?thesis using m1 Cons.IH by simp
  qed
qed

lemma for_of_perm:
  assumes u: "uniform e bd" and p: "mset xs = mset ys" and inv: "tally_inv m"
  shows "(for_of bd m xs = Inl e \<and> for_of bd m ys = Inl e) \<or>
         (\<exists>m1 m2. for_of bd m xs = Inr m1 \<and> for_of bd m ys = Inr m2 \<and> mset m1 = mset m2)"
proof (cases "\<exists>x\<in>set xs. \<forall>m. bd m x = Inl e")
  case True
  then obtain x where x: "x \<in> set xs" "\<forall>m. bd m x = Inl e" by blast
  have "x \<in> set ys" using x(1) p by (metis mset_eq_setD)
  then show ?thesis using for_of_bad[OF _ x(2) u] x(1) by blast
next
  case False
  then have "\<forall>x. \<exists>d. x \<in> set xs \<longrightarrow> (\<forall>m. \<exists>m'. bd m x = Inr m' \<and> (tally_inv m \<longrightarrow> tally_inv m')
                \<and> (\<forall>k. count_or_zero m' k = count_or_zero m k + d k))"
    using uniformD[OF u] by blast
  then obtain D where D: "\<And>x m. x \<in> set xs \<Longrightarrow> \<exists>m'. bd m x = Inr m' \<and> (tally_inv m \<longrightarrow> tally_inv m')
                \<and> (\<forall>k. count_or_zero m' k = count_or_zero m k + D x k)"
    by metis
  have D': "\<And>x m. x \<in> set ys \<Longrightarrow> \<exists>m'. bd m x = Inr m' \<and> (tally_inv m \<longrightarrow> tally_inv m')
                \<and> (\<forall>k. count_or_zero m' k = count_or_zero m k + D x k)"
    using D p by (metis mset_eq_setD)
  obtain m1 where m1: "for_of bd m xs = Inr m1" "tally_inv m1"
      "\<forall>k. count_or_zero m1 k = count_or_zero m k + sum_list (map (\<lambda>x. D x k) xs)"
    using for_of_sum[of xs bd D m, OF D] inv by blast
  obtain m2 where m2: "for_of bd m ys = Inr m2" "tally_inv m2"
      "\<forall>k. count_or_zero m2 k = count_or_zero m k + sum_list (map (\<lambda>x. D x k) ys)"
    using for_of_sum[of ys bd D m, OF D'] inv by blast
  have "sum_list (map (\<lambda>x. D x k) xs) = sum_list (map (\<lambda>x. D x k) ys)" for k
  proof -
    have "sum_list (map (\<lambda>x. D x k) xs) = sum_mset (image_mset (\<lambda>x. D x k) (mset xs))"
      by (metis mset_map sum_mset_sum_list)
    also have "\<dots> = sum_mset (image_mset (\<lambda>x. D x k) (mset ys))" using p by simp
    also have "\<dots> = sum_list (map (\<lambda>x. D x k) ys)"
      by (metis mset_map sum_mset_sum_list)
    finally show ?thesis .
  qed
  then have "mset m1 = mset m2"
    using m1 m2 by (intro tally_eq_mset) simp_all
  then show ?thesis using m1(1) m2(1) by blast
qed

text \<open>
  Two tallies with the same entries have rankings with the same entries, and the same
  ranking when the comparator tells the names in the tally apart.
\<close>

lemma rank_mset:
  assumes "mset m1 = mset m2"
  shows "mset (rank lc m1) = mset (rank lc m2)"
proof -
  have "mset (map (\<lambda>(u, n). \<lparr>user = u, countN = n\<rparr>) m1) = mset (map
      (\<lambda>(u, n). \<lparr>user = u, countN = n\<rparr>) m2)"
    using assms by (metis mset_map)
  then show ?thesis by (simp add: rank_def mset_js_sort)
qed

lemma rank_mset_cong:
  assumes "consistent lc" "mset (rank lc m1) = mset (rank lc m2)"
    and apart: "\<And>a b. a \<in> set (rank lc m1) \<Longrightarrow> b \<in> set (rank lc m1) \<Longrightarrow>
        lc (user a) (user b) \<le> 0 \<Longrightarrow> lc (user b) (user a) \<le> 0 \<Longrightarrow> user a = user b"
  shows "rank lc m1 = rank lc m2"
proof (rule sorted_unique[where R = "\<lambda>a b. user_cmp lc a b \<le> 0"])
  show "sorted_wrt (\<lambda>a b. user_cmp lc a b \<le> 0) (rank lc m1)"
    unfolding rank_def using assms(1) by (intro sorted_js_sort consistent_user_cmp)
  show "sorted_wrt (\<lambda>a b. user_cmp lc a b \<le> 0) (rank lc m2)"
    unfolding rank_def using assms(1) by (intro sorted_js_sort consistent_user_cmp)
  show "mset (rank lc m1) = mset (rank lc m2)" by (rule assms(2))
  fix a b
  assume ab: "a \<in> set (rank lc m1)" "b \<in> set (rank lc m1)"
    "user_cmp lc a b \<le> 0" "user_cmp lc b a \<le> 0"
  have "countN a = countN b" "lc (user a) (user b) \<le> 0" "lc (user b) (user a) \<le> 0"
    using ab(3,4) by (auto simp: user_cmp_le)
  moreover have "user a = user b"
    using apart[OF ab(1,2)] calculation(2,3) by blast
  ultimately show "a = b" by simp
qed

section \<open>The pages of an issue do not depend on the tally\<close>

lemma processIssue_loop_error:
  assumes "fetchChangelog (issue_id iss) startAt 100 = Inl e"
  shows "processIssue_loop fetchChangelog rt c iss startAt st =
           Some (Some e, st\<lparr>calls := calls st @ [ChangelogCall (issue_id iss) startAt 100]\<rparr>)"
  using assms by (subst processIssue_loop.simps) (simp add: Let_def)

lemma processIssue_loop_throw:
  assumes "fetchChangelog (issue_id iss) startAt 100 = Inr page"
    and "for_of (process_history rt c) (counts st)
           (case log_values page of None \<Rightarrow> [] | Some hs \<Rightarrow> hs) = Inl e"
  shows "processIssue_loop fetchChangelog rt c iss startAt st =
           Some (Some e, st\<lparr>calls := calls st @ [ChangelogCall (issue_id iss) startAt 100]\<rparr>)"
  using assms by (subst processIssue_loop.simps) (simp add: Let_def)

lemma processIssue_loop_stop:
  assumes "fetchChangelog (issue_id iss) startAt 100 = Inr page"
    and "for_of (process_history rt c) (counts st)
           (case log_values page of None \<Rightarrow> [] | Some hs \<Rightarrow> hs) = Inr m'"
    and "length (case log_values page of None \<Rightarrow> [] | Some hs \<Rightarrow> hs) = 0 \<or>
         \<not> startAt + int (length (case log_values page of None \<Rightarrow> [] | Some hs \<Rightarrow> hs))
            < (case log_total page of None \<Rightarrow> 0 | Some t \<Rightarrow> t)"
  shows "processIssue_loop fetchChangelog rt c iss startAt st =
           Some (None, st\<lparr>calls := calls st @ [ChangelogCall (issue_id iss) startAt 100],
                         counts := m'\<rparr>)"
  using assms by (subst processIssue_loop.simps) (auto simp: Let_def)

lemma processIssue_loop_continue:
  assumes "fetchChangelog (issue_id iss) startAt 100 = Inr page"
    and "for_of (process_history rt c) (counts st)
           (case log_values page of None \<Rightarrow> [] | Some hs \<Rightarrow> hs) = Inr m'"
    and "length (case log_values page of None \<Rightarrow> [] | Some hs \<Rightarrow> hs) \<noteq> 0"
    and "startAt + int (length (case log_values page of None \<Rightarrow> [] | Some hs \<Rightarrow> hs))
            < (case log_total page of None \<Rightarrow> 0 | Some t \<Rightarrow> t)"
  shows "processIssue_loop fetchChangelog rt c iss startAt st =
           processIssue_loop fetchChangelog rt c iss
             (startAt + int (length (case log_values page of None \<Rightarrow> [] | Some hs \<Rightarrow> hs)))
             (st\<lparr>calls := calls st @ [ChangelogCall (issue_id iss) startAt 100],
                 counts := m'\<rparr>)"
  using assms by (subst processIssue_loop.simps) (simp add: Let_def)

lemma processIssue_loop_independent_aux:
  assumes "processIssue_loop F rt c iss s st = Some y"
  shows "fst y = None \<longrightarrow>
     (\<exists>hs cl. \<forall>st2. \<exists>m'. for_of (process_history rt c) (counts st2) hs = Inr m' \<and>
         processIssue_loop F rt c iss s st2 =
           Some (None, st2\<lparr>calls := calls st2 @ cl, counts := m'\<rparr>))"
proof (rule processIssue_loop.raw_induct[where P = "\<lambda>F rt c iss s st y. fst y = None \<longrightarrow>
     (\<exists>hs cl. \<forall>st2. \<exists>m'. for_of (process_history rt c) (counts st2) hs = Inr m' \<and>
         processIssue_loop F rt c iss s st2 =
           Some (None, st2\<lparr>calls := calls st2 @ cl, counts := m'\<rparr>))", OF _ assms],
    goal_cases)
  case (1 f F rt c iss s st y)
  note IH = 1(1) and bdy = 1(2)
  show ?case
  proof (cases "F (issue_id iss) s 100")
    case (Inl e)
    then have "fst y = Some e" using bdy by (auto simp: Let_def)
    then show ?thesis by simp
  next
    case (Inr page)
    let ?hs0 = "case log_values page of None \<Rightarrow> [] | Some hs \<Rightarrow> hs"
    let ?tot = "case log_total page of None \<Rightarrow> 0 | Some t \<Rightarrow> t"
    let ?st1 = "st\<lparr>calls := calls st @ [ChangelogCall (issue_id iss) s 100]\<rparr>"
    show ?thesis
    proof (cases "for_of (process_history rt c) (counts st) ?hs0")
      case (Inl e)
      then have "fst y = Some e" using bdy Inr by (auto simp: Let_def)
      then show ?thesis by simp
    next
      case good: (Inr m0)
      have all: "\<exists>m'. for_of (process_history rt c) (counts st2) ?hs0 = Inr m'" for st2
        using uniform_Inr[OF uniform_process_history good] .
      show ?thesis
      proof (cases "length ?hs0 = 0 \<or> \<not> s + int (length ?hs0) < ?tot")
        case True
        have "\<exists>m'. for_of (process_history rt c) (counts st2) ?hs0 = Inr m' \<and>
           processIssue_loop F rt c iss s st2 =
           Some (None, st2\<lparr>calls := calls st2 @ [ChangelogCall (issue_id iss) s 100],
                          counts := m'\<rparr>)" for st2
        proof -
          obtain m' where m': "for_of (process_history rt c) (counts st2) ?hs0 = Inr m'"
            using all by blast
          show ?thesis
            using processIssue_loop_stop[where fetchChangelog = F and iss = iss and startAt = s
                and page = page and st = st2, OF Inr m' True] m'
            by blast
        qed
        then show ?thesis by blast
      next
        case False
        then have ne: "length ?hs0 \<noteq> 0" and lt: "s + int (length ?hs0) < ?tot" by auto
        have step: "f F rt c iss (s + int (length ?hs0))
                (st\<lparr>calls := calls st @ [ChangelogCall (issue_id iss) s 100],
                    counts := m0\<rparr>) = Some y"
          using bdy Inr good ne lt by (simp add: Let_def)
        show ?thesis
        proof
          assume "fst y = None"
          with IH[OF step] obtain hs cl where
            rec: "\<And>st2. \<exists>m'. for_of (process_history rt c) (counts st2) hs = Inr m' \<and>
             processIssue_loop F rt c iss (s + int (length ?hs0)) st2 =
             Some (None, st2\<lparr>calls := calls st2 @ cl, counts := m'\<rparr>)"
            by blast
          have "\<exists>m'. for_of (process_history rt c) (counts st2) (?hs0 @ hs) = Inr m' \<and>
             processIssue_loop F rt c iss s st2 =
             Some (None, st2\<lparr>calls := calls st2 @ (ChangelogCall (issue_id iss) s 100 # cl),
                            counts := m'\<rparr>)" for st2
          proof -
            obtain m1 where m1: "for_of (process_history rt c) (counts st2) ?hs0 = Inr m1"
              using all by blast
            let ?st3 = "st2\<lparr>calls := calls st2 @ [ChangelogCall (issue_id iss) s 100],
                 counts := m1\<rparr>"
            obtain m2 where m2: "for_of (process_history rt c) (counts ?st3) hs = Inr m2"
               "processIssue_loop F rt c iss (s + int (length ?hs0)) ?st3 =
                  Some (None, ?st3\<lparr>calls := calls ?st3 @ cl, counts := m2\<rparr>)"
              using rec[of ?st3] by blast
            have "for_of (process_history rt c) (counts st2) (?hs0 @ hs) = Inr m2"
              using m1 m2(1) by (simp add: for_of_append)
            moreover have "processIssue_loop F rt c iss s st2 =
                Some (None, st2\<lparr>calls := calls st2 @ (ChangelogCall (issue_id iss) s 100 # cl),
                            counts := m2\<rparr>)"
              using processIssue_loop_continue[where fetchChangelog = F and iss = iss
                  and startAt = s and page = page and st = st2, OF Inr m1 ne lt] m2(2)
              by simp
            ultimately show ?thesis by blast
          qed
          then show "\<exists>hs cl. \<forall>st2. \<exists>m'. for_of (process_history rt c) (counts st2) hs = Inr m' \<and>
             processIssue_loop F rt c iss s st2 =
             Some (None, st2\<lparr>calls := calls st2 @ cl, counts := m'\<rparr>)"
            by blast
        qed
      qed
    qed
  qed
qed

lemma processIssue_loop_independent:
  assumes "processIssue_loop F rt c iss s st = Some y" "fst y = None"
  shows "\<exists>hs cl. \<forall>st2. \<exists>m'. for_of (process_history rt c) (counts st2) hs = Inr m' \<and>
         processIssue_loop F rt c iss s st2 =
           Some (None, st2\<lparr>calls := calls st2 @ cl, counts := m'\<rparr>)"
  using processIssue_loop_independent_aux[OF assms(1)] assms(2) by blast

lemma processAll_good:
  assumes "processAll F rt c issues st = Some (None, st')"
  shows "\<forall>iss\<in>set issues. \<exists>hs cl. \<forall>st2. \<exists>m'.
           for_of (process_history rt c) (counts st2) hs = Inr m' \<and>
           processIssue F rt c iss st2 =
             Some (None, st2\<lparr>calls := calls st2 @ cl, counts := m'\<rparr>)"
  using assms
proof (induction issues arbitrary: st)
  case Nil
  then show ?case by simp
next
  case (Cons iss rest)
  from Cons.prems obtain st1 where
    1: "processIssue F rt c iss st = Some (None, st1)" and
    2: "processAll F rt c rest st1 = Some (None, st')"
    by (auto split: option.splits prod.splits)
  have "\<exists>hs cl. \<forall>st2. \<exists>m'. for_of (process_history rt c) (counts st2) hs = Inr m' \<and>
           processIssue F rt c iss st2 =
             Some (None, st2\<lparr>calls := calls st2 @ cl, counts := m'\<rparr>)"
    using processIssue_loop_independent[of F rt c iss 0 st "(None, st1)"] 1
    by (simp add: processIssue_def)
  then show ?case using Cons.IH[OF 2] by simp
qed

lemma processAll_concat:
  assumes "\<forall>iss\<in>set issues. \<forall>st2. \<exists>m'.
           for_of (process_history rt c) (counts st2) (H iss) = Inr m' \<and>
           processIssue F rt c iss st2 =
             Some (None, st2\<lparr>calls := calls st2 @ CL iss, counts := m'\<rparr>)"
  shows "\<exists>m'. for_of (process_history rt c) (counts st) (concat (map H issues)) = Inr m' \<and>
         processAll F rt c issues st =
           Some (None, st\<lparr>calls := calls st @ concat (map CL issues), counts := m'\<rparr>)"
  using assms
proof (induction issues arbitrary: st)
  case Nil
  then show ?case by simp
next
  case (Cons iss rest)
  have hd: "\<forall>st2. \<exists>m'.
           for_of (process_history rt c) (counts st2) (H iss) = Inr m' \<and>
           processIssue F rt c iss st2 =
             Some (None, st2\<lparr>calls := calls st2 @ CL iss, counts := m'\<rparr>)"
    and tl: "\<forall>iss\<in>set rest. \<forall>st2. \<exists>m'.
           for_of (process_history rt c) (counts st2) (H iss) = Inr m' \<and>
           processIssue F rt c iss st2 =
             Some (None, st2\<lparr>calls := calls st2 @ CL iss, counts := m'\<rparr>)"
    using Cons.prems by simp_all
  obtain m1 where m1: "for_of (process_history rt c) (counts st) (H iss) = Inr m1"
      "processIssue F rt c iss st =
             Some (None, st\<lparr>calls := calls st @ CL iss, counts := m1\<rparr>)"
    using hd by blast
  let ?st1 = "st\<lparr>calls := calls st @ CL iss, counts := m1\<rparr>"
  obtain m2 where m2: "for_of (process_history rt c) (counts ?st1) (concat (map H rest)) = Inr m2"
      "processAll F rt c rest ?st1 =
           Some (None, ?st1\<lparr>calls := calls ?st1 @ concat (map CL rest), counts := m2\<rparr>)"
    using Cons.IH[of ?st1, OF tl] by blast
  have "for_of (process_history rt c) (counts st) (concat (map H (iss # rest))) = Inr m2"
    using m1(1) m2(1) by (simp add: for_of_append)
  moreover have "processAll F rt c (iss # rest) st =
           Some (None, st\<lparr>calls := calls st @ concat (map CL (iss # rest)), counts := m2\<rparr>)"
    using m1(2) m2(2) by simp
  ultimately show ?case by blast
qed

lemma mset_concat_map_perm:
  assumes "mset xs = mset ys"
  shows "mset (concat (map H xs)) = mset (concat (map H ys))"
proof -
  have "mset (concat (map H zs)) = sum_mset (image_mset (\<lambda>z. mset (H z)) (mset zs))" for zs
    by (induction zs) simp_all
  then show ?thesis using assms by simp
qed

section \<open>Order independence\<close>

text \<open>
  C4. What the ranked result keeps when the change events reach the tally in another
  order, for a \<open>localeCompare\<close> that is a consistent comparator. Take two sequences of
  history entries that are permutations of each other. Either the loop throws on both,
  with the same exception, or it ends on both, and then the two tallies hold the same
  entries (the same names with the same counts), the two rankings hold the same entries,
  and the two rankings are the same sequence when \<open>localeCompare\<close> tells apart the names
  that were counted (it reports two of them as equal only when they are the same name).
  The same holds of the run over a list of issues: when it returns a ranking, the run over
  any permutation of the list returns a ranking with the same entries, and the same
  ranking when \<open>localeCompare\<close> tells apart the names in it. Names that \<open>localeCompare\<close>
  reports as equal keep, among entries of equal count, the order in which they were first
  counted, which is the one thing that depends on the order of the events.
\<close>

theorem tally_order_independent:
  assumes "consistent lc"
  shows "(mset hs = mset hs' \<longrightarrow>
            ((for_of (process_history rt c) [] hs = Inl (Error (js_notAFunction rt))
                \<and> for_of (process_history rt c) [] hs' = Inl (Error (js_notAFunction rt)))
             \<or> (\<exists>m m'. for_of (process_history rt c) [] hs = Inr m
                  \<and> for_of (process_history rt c) [] hs' = Inr m'
                  \<and> mset m' = mset m
                  \<and> mset (rank lc m') = mset (rank lc m)
                  \<and> ((\<forall>a\<in>set (rank lc m). \<forall>b\<in>set (rank lc m).
                         lc (user a) (user b) \<le> 0 \<and> lc (user b) (user a) \<le> 0 \<longrightarrow> user a = user b)
                       \<longrightarrow> rank lc m' = rank lc m))))
       \<and> (mset issues = mset issues' \<and> countTransitionsByUser F rt lc c issues cs0 = Some (Inr r, cs1) \<longrightarrow>
            (\<exists>r' cs1'. countTransitionsByUser F rt lc c issues' cs0 = Some (Inr r', cs1')
               \<and> mset r' = mset r
               \<and> ((\<forall>a\<in>set r. \<forall>b\<in>set r.
                      lc (user a) (user b) \<le> 0 \<and> lc (user b) (user a) \<le> 0 \<longrightarrow> user a = user b)
                    \<longrightarrow> r' = r)))"
proof (intro conjI impI)
  assume p: "mset hs = mset hs'"
  have "(for_of (process_history rt c) [] hs = Inl (Error (js_notAFunction rt))
          \<and> for_of (process_history rt c) [] hs' = Inl (Error (js_notAFunction rt)))
        \<or> (\<exists>m1 m2. for_of (process_history rt c) [] hs = Inr m1
              \<and> for_of (process_history rt c) [] hs' = Inr m2 \<and> mset m1 = mset m2)"
    by (rule for_of_perm[OF uniform_process_history p]) (simp add: tally_inv_def)
  then show "(for_of (process_history rt c) [] hs = Inl (Error (js_notAFunction rt))
                \<and> for_of (process_history rt c) [] hs' = Inl (Error (js_notAFunction rt)))
             \<or> (\<exists>m m'. for_of (process_history rt c) [] hs = Inr m
                  \<and> for_of (process_history rt c) [] hs' = Inr m'
                  \<and> mset m' = mset m
                  \<and> mset (rank lc m') = mset (rank lc m)
                  \<and> ((\<forall>a\<in>set (rank lc m). \<forall>b\<in>set (rank lc m).
                         lc (user a) (user b) \<le> 0 \<and> lc (user b) (user a) \<le> 0 \<longrightarrow> user a = user b)
                       \<longrightarrow> rank lc m' = rank lc m))"
  proof
    assume "for_of (process_history rt c) [] hs = Inl (Error (js_notAFunction rt))
          \<and> for_of (process_history rt c) [] hs' = Inl (Error (js_notAFunction rt))"
    then show ?thesis by blast
  next
    assume "\<exists>m1 m2. for_of (process_history rt c) [] hs = Inr m1
              \<and> for_of (process_history rt c) [] hs' = Inr m2 \<and> mset m1 = mset m2"
    then obtain m1 m2 where m: "for_of (process_history rt c) [] hs = Inr m1"
        "for_of (process_history rt c) [] hs' = Inr m2" "mset m1 = mset m2"
      by blast
    have r: "mset (rank lc m1) = mset (rank lc m2)"
      by (rule rank_mset[OF m(3)])
    have "rank lc m2 = rank lc m1"
      if "\<forall>a\<in>set (rank lc m1). \<forall>b\<in>set (rank lc m1).
             lc (user a) (user b) \<le> 0 \<and> lc (user b) (user a) \<le> 0 \<longrightarrow> user a = user b"
      using rank_mset_cong[OF assms r] that by metis
    then show ?thesis using m r by auto
  qed
next
  assume a: "mset issues = mset issues' \<and> countTransitionsByUser F rt lc c issues cs0 = Some (Inr r, cs1)"
  then obtain st' where
    run: "processAll F rt c issues \<lparr>counts = [], calls = cs0\<rparr> = Some (None, st')" and
    r: "r = rank lc (counts st')"
    by (auto simp: countTransitionsByUser_def split: option.splits prod.splits)
  have good: "\<forall>iss\<in>set issues. \<exists>hs cl. \<forall>st2. \<exists>m'.
           for_of (process_history rt c) (counts st2) hs = Inr m' \<and>
           processIssue F rt c iss st2 =
             Some (None, st2\<lparr>calls := calls st2 @ cl, counts := m'\<rparr>)"
    by (rule processAll_good[OF run])
  then obtain H CL where HCL: "\<forall>iss\<in>set issues. \<forall>st2. \<exists>m'.
           for_of (process_history rt c) (counts st2) (H iss) = Inr m' \<and>
           processIssue F rt c iss st2 =
             Some (None, st2\<lparr>calls := calls st2 @ CL iss, counts := m'\<rparr>)"
    by metis
  have seteq: "set issues' = set issues" using a by (metis mset_eq_setD)
  then have HCL': "\<forall>iss\<in>set issues'. \<forall>st2. \<exists>m'.
           for_of (process_history rt c) (counts st2) (H iss) = Inr m' \<and>
           processIssue F rt c iss st2 =
             Some (None, st2\<lparr>calls := calls st2 @ CL iss, counts := m'\<rparr>)"
    using HCL by simp
  obtain m1 where m1: "for_of (process_history rt c) [] (concat (map H issues)) = Inr m1"
      "processAll F rt c issues \<lparr>counts = [], calls = cs0\<rparr> =
           Some (None, \<lparr>counts = m1, calls = cs0 @ concat (map CL issues)\<rparr>)"
    using processAll_concat[OF HCL, of "\<lparr>counts = [], calls = cs0\<rparr>"] by auto
  obtain m2 where m2: "for_of (process_history rt c) [] (concat (map H issues')) = Inr m2"
      "processAll F rt c issues' \<lparr>counts = [], calls = cs0\<rparr> =
           Some (None, \<lparr>counts = m2, calls = cs0 @ concat (map CL issues')\<rparr>)"
    using processAll_concat[OF HCL', of "\<lparr>counts = [], calls = cs0\<rparr>"] by auto
  have p: "mset (concat (map H issues)) = mset (concat (map H issues'))"
    using a by (intro mset_concat_map_perm) simp
  have "mset m1 = mset m2"
    using for_of_perm[OF uniform_process_history p, of "[]" rt c] m1(1) m2(1)
    by (simp add: tally_inv_def)
  then have rm: "mset (rank lc m1) = mset (rank lc m2)"
    by (rule rank_mset)
  have "st' = \<lparr>counts = m1, calls = cs0 @ concat (map CL issues)\<rparr>"
    using run m1(2) by simp
  then have r1: "r = rank lc m1"
    using r by simp
  have 2: "countTransitionsByUser F rt lc c issues' cs0
      = Some (Inr (rank lc m2), cs0 @ concat (map CL issues'))"
    using m2(2) by (simp add: countTransitionsByUser_def)
  have "rank lc m2 = r"
    if "\<forall>a\<in>set r. \<forall>b\<in>set r.
          lc (user a) (user b) \<le> 0 \<and> lc (user b) (user a) \<le> 0 \<longrightarrow> user a = user b"
    using rank_mset_cong[OF assms rm] that unfolding r1 by metis
  then show "\<exists>r' cs1'. countTransitionsByUser F rt lc c issues' cs0 = Some (Inr r', cs1')
               \<and> mset r' = mset r
               \<and> ((\<forall>a\<in>set r. \<forall>b\<in>set r.
                      lc (user a) (user b) \<le> 0 \<and> lc (user b) (user a) \<le> 0 \<longrightarrow> user a = user b)
                    \<longrightarrow> r' = r)"
    using 2 rm r1 by auto
qed

theorem tally_order_independent_witness:
  "consistent (\<lambda>a b :: string. if a < b then - 1 else if a = b then 0 else 1)
   \<and> mset [\<lparr>author = None, created = [], items = Some [\<lparr>field = ''status'', fromString = None, toString = Own (Some ''Done'')\<rparr>]\<rparr>,
        \<lparr>author = Some
            \<lparr>displayName = Some ''al'', name = None, accountId = None\<rparr>,
            created = [], items = Some [\<lparr>field = ''status'', fromString = None, toString = Own (Some ''Done'')\<rparr>]\<rparr>]
     = mset [\<lparr>author = Some
         \<lparr>displayName = Some ''al'', name = None, accountId = None\<rparr>,
         created = [], items = Some [\<lparr>field = ''status'', fromString = None, toString = Own (Some ''Done'')\<rparr>]\<rparr>,
        \<lparr>author = None, created = [], items = Some [\<lparr>field = ''status'', fromString = None, toString = Own (Some ''Done'')\<rparr>]\<rparr>]
   \<and> for_of (process_history
         \<lparr>js_getTime = (\<lambda>s. None), js_toLowerCase = toLowerCase, js_trim = trim,
          js_notAFunction = ''(intermediate value).trim is not a function''\<rparr>
         \<lparr>fromName = None, toName = None, since = None, until = None, notFromName = None, notToName = None\<rparr>) []
       [\<lparr>author = None, created = [], items = Some [\<lparr>field = ''status'', fromString = None, toString = Own (Some ''Done'')\<rparr>]\<rparr>,
        \<lparr>author = Some
            \<lparr>displayName = Some ''al'', name = None, accountId = None\<rparr>,
            created = [], items = Some [\<lparr>field = ''status'', fromString = None, toString = Own (Some ''Done'')\<rparr>]\<rparr>]
     = Inr [(''Unknown'', 1), (''al'', 1)]
   \<and> for_of (process_history
         \<lparr>js_getTime = (\<lambda>s. None), js_toLowerCase = toLowerCase, js_trim = trim,
          js_notAFunction = ''(intermediate value).trim is not a function''\<rparr>
         \<lparr>fromName = None, toName = None, since = None, until = None, notFromName = None, notToName = None\<rparr>) []
       [\<lparr>author = Some
           \<lparr>displayName = Some ''al'', name = None, accountId = None\<rparr>,
           created = [], items = Some [\<lparr>field = ''status'', fromString = None, toString = Own (Some ''Done'')\<rparr>]\<rparr>,
        \<lparr>author = None, created = [], items = Some [\<lparr>field = ''status'', fromString = None, toString = Own (Some ''Done'')\<rparr>]\<rparr>]
     = Inr [(''al'', 1), (''Unknown'', 1)]
   \<and> rank (\<lambda>a b :: string. if a < b then - 1 else if a = b then 0 else 1)
        [(''al'', 1), (''Unknown'', 1)]
     = rank (\<lambda>a b :: string. if a < b then - 1 else if a = b then 0 else 1)
        [(''Unknown'', 1), (''al'', 1)]
   \<and> mset [\<lparr>issue_key = ''K-1'', issue_id = ''bob''\<rparr>,
       \<lparr>issue_key = ''K-2'', issue_id = ''al''\<rparr>] = mset [\<lparr>issue_key = ''K-2'', issue_id = ''al''\<rparr>,
       \<lparr>issue_key = ''K-1'', issue_id = ''bob''\<rparr>]
   \<and> countTransitionsByUser (\<lambda>i s n. Inr
       \<lparr>log_total = Some 1, log_values = Some [\<lparr>author = Some
       \<lparr>displayName = Some i, name = None, accountId = None\<rparr>,
       created = [], items = Some [\<lparr>field = ''status'', fromString = None, toString = Own (Some ''Done'')\<rparr>]\<rparr>]\<rparr>)
       \<lparr>js_getTime = (\<lambda>s. None), js_toLowerCase = toLowerCase, js_trim = trim,
        js_notAFunction = ''(intermediate value).trim is not a function''\<rparr>
       (\<lambda>a b :: string. if a < b then - 1 else if a = b then 0 else 1)
        \<lparr>fromName = None, toName = None, since = None, until = None, notFromName = None, notToName = None\<rparr>
        [\<lparr>issue_key = ''K-1'', issue_id = ''bob''\<rparr>,
            \<lparr>issue_key = ''K-2'', issue_id = ''al''\<rparr>] []
      = Some (Inr [\<lparr>user = ''al'', countN = 1\<rparr>,
          \<lparr>user = ''bob'', countN = 1\<rparr>], [ChangelogCall ''bob'' 0 100, ChangelogCall ''al'' 0 100])
   \<and> (\<exists>cs. countTransitionsByUser (\<lambda>i s n. Inr
       \<lparr>log_total = Some 1, log_values = Some [\<lparr>author = Some
       \<lparr>displayName = Some i, name = None, accountId = None\<rparr>,
       created = [], items = Some [\<lparr>field = ''status'', fromString = None, toString = Own (Some ''Done'')\<rparr>]\<rparr>]\<rparr>)
       \<lparr>js_getTime = (\<lambda>s. None), js_toLowerCase = toLowerCase, js_trim = trim,
        js_notAFunction = ''(intermediate value).trim is not a function''\<rparr>
       (\<lambda>a b :: string. if a < b then - 1 else if a = b then 0 else 1)
        \<lparr>fromName = None, toName = None, since = None, until = None, notFromName = None, notToName = None\<rparr>
        [\<lparr>issue_key = ''K-2'', issue_id = ''al''\<rparr>,
            \<lparr>issue_key = ''K-1'', issue_id = ''bob''\<rparr>] []
      = Some (Inr [\<lparr>user = ''al'', countN = 1\<rparr>,
          \<lparr>user = ''bob'', countN = 1\<rparr>], cs))"
proof -
  let ?LC = "(\<lambda>a b :: string. if a < b then - 1 else if a = b then 0 else (1 :: int))"
  let ?R = "\<lparr>js_getTime = (\<lambda>s. None), js_toLowerCase = toLowerCase, js_trim = trim,
        js_notAFunction = ''(intermediate value).trim is not a function''\<rparr>"
  let ?F = "(\<lambda>i s n. Inr
      \<lparr>log_total = Some 1, log_values = Some [\<lparr>author = Some
      \<lparr>displayName = Some i, name = None, accountId = None\<rparr>,
      created = [], items = Some [\<lparr>field = ''status'', fromString = None, toString = Own (Some ''Done'')\<rparr>]\<rparr>]\<rparr>)"
  let ?C = "\<lparr>fromName = None, toName = None, since = None, until = None, notFromName = None, notToName = None\<rparr>"
  let ?HS = "[\<lparr>author = None, created = [], items = Some [\<lparr>field = ''status'', fromString = None, toString = Own (Some ''Done'')\<rparr>]\<rparr>,
        \<lparr>author = Some
            \<lparr>displayName = Some ''al'', name = None, accountId = None\<rparr>,
            created = [], items = Some [\<lparr>field = ''status'', fromString = None, toString = Own (Some ''Done'')\<rparr>]\<rparr>]"
  let ?HS2 = "[\<lparr>author = Some
      \<lparr>displayName = Some ''al'', name = None, accountId = None\<rparr>,
      created = [], items = Some [\<lparr>field = ''status'', fromString = None, toString = Own (Some ''Done'')\<rparr>]\<rparr>,
        \<lparr>author = None, created = [], items = Some [\<lparr>field = ''status'', fromString = None, toString = Own (Some ''Done'')\<rparr>]\<rparr>]"
  let ?IS = "[\<lparr>issue_key = ''K-1'', issue_id = ''bob''\<rparr>,
      \<lparr>issue_key = ''K-2'', issue_id = ''al''\<rparr>]"
  let ?IS2 = "[\<lparr>issue_key = ''K-2'', issue_id = ''al''\<rparr>,
      \<lparr>issue_key = ''K-1'', issue_id = ''bob''\<rparr>]"
  let ?r = "[\<lparr>user = ''al'', countN = 1\<rparr>, \<lparr>user = ''bob'', countN = 1\<rparr>]"
  note T = tally_order_independent [OF lex_consistent,
      of ?HS ?HS2 ?R ?C ?IS ?IS2 ?F "[]" ?r "[ChangelogCall ''bob'' 0 100, ChangelogCall ''al'' 0 100]"]
  have apart: "?LC x y \<le> 0 \<and> ?LC y x \<le> 0 \<longrightarrow> x = y" for x y
    by (auto split: if_splits)
  have m1: "mset ?HS = mset ?HS2" by simp
  have m2: "mset ?IS = mset ?IS2" by simp
  have v1: "for_of (process_history ?R ?C) [] ?HS = Inr [(''Unknown'', 1), (''al'', 1)]"
    by code_simp
  have v2: "for_of (process_history ?R ?C) [] ?HS2 = Inr [(''al'', 1), (''Unknown'', 1)]"
    by code_simp
  have run: "countTransitionsByUser ?F ?R ?LC ?C ?IS []
      = Some (Inr ?r, [ChangelogCall ''bob'' 0 100, ChangelogCall ''al'' 0 100])"
    by code_simp
  note D = T [THEN conjunct1, THEN mp, OF m1, unfolded v1 v2]
  have c1: "\<forall>a\<in>set (rank ?LC [(''Unknown'', 1), (''al'', 1)]).
        \<forall>b\<in>set (rank ?LC [(''Unknown'', 1), (''al'', 1)]).
          ?LC (user a) (user b) \<le> 0 \<and> ?LC (user b) (user a) \<le> 0 \<longrightarrow> user a = user b"
    using apart by blast
  have "(\<forall>a\<in>set (rank ?LC [(''Unknown'', 1), (''al'', 1)]).
        \<forall>b\<in>set (rank ?LC [(''Unknown'', 1), (''al'', 1)]).
          ?LC (user a) (user b) \<le> 0 \<and> ?LC (user b) (user a) \<le> 0 \<longrightarrow> user a = user b)
       \<longrightarrow> rank ?LC [(''al'', 1), (''Unknown'', 1)] = rank ?LC [(''Unknown'', 1), (''al'', 1)]"
    using D by (elim disjE conjE exE) (simp_all only: sum.inject sum.distinct)
  then have e1: "rank ?LC [(''al'', 1), (''Unknown'', 1)] = rank ?LC [(''Unknown'', 1), (''al'', 1)]"
    using c1 by (rule mp)
  have c2: "\<forall>a\<in>set ?r. \<forall>b\<in>set ?r.
                 ?LC (user a) (user b) \<le> 0 \<and> ?LC (user b) (user a) \<le> 0 \<longrightarrow> user a = user b"
    using apart by blast
  obtain r' cs where r': "countTransitionsByUser ?F ?R ?LC ?C ?IS2 [] = Some (Inr r', cs)"
      "(\<forall>a\<in>set ?r. \<forall>b\<in>set ?r.
                 ?LC (user a) (user b) \<le> 0 \<and> ?LC (user b) (user a) \<le> 0 \<longrightarrow> user a = user b)
               \<longrightarrow> r' = ?r"
    using T [THEN conjunct2, THEN mp, OF conjI [OF m2 run]] by (elim exE conjE)
  have "r' = ?r" using r'(2) c2 by (rule mp)
  then have e2: "\<exists>cs. countTransitionsByUser ?F ?R ?LC ?C ?IS2 [] = Some (Inr ?r, cs)"
    using r'(1) by (intro exI[of _ cs]) (simp only:)
  show ?thesis
    by (intro conjI) (rule lex_consistent, rule m1, rule v1, rule v2, rule e1, rule m2,
        rule run, rule e2)
qed

text \<open>
  The ranking itself depends on the order of the events when \<open>localeCompare\<close> reports two
  different names as equal, as the collation of the runtime does for two spellings of one
  text that are canonically equivalent: \<open>U+00E9\<close>, and \<open>e\<close> followed by the combining
  accent \<open>U+0301\<close>. The comparator below compares strings by their characters once the
  second spelling is replaced by the first. With one event by each of the two names, the
  run over the two issues in one order and in the other returns two different rankings.
\<close>

theorem ranking_depends_on_order:
  "consistent (\<lambda>a b :: string.
       if (if a = [CHR 0x65, CHR 0xCC, CHR 0x81] then [CHR 0xC3, CHR 0xA9] else a)
            < (if b = [CHR 0x65, CHR 0xCC, CHR 0x81] then [CHR 0xC3, CHR 0xA9] else b) then - 1
       else if (if a = [CHR 0x65, CHR 0xCC, CHR 0x81] then [CHR 0xC3, CHR 0xA9] else a)
            = (if b = [CHR 0x65, CHR 0xCC, CHR 0x81] then [CHR 0xC3, CHR 0xA9] else b) then 0
       else 1)
   \<and> mset [\<lparr>issue_key = ''K-1'', issue_id = [CHR 0xC3, CHR 0xA9]\<rparr>,
            \<lparr>issue_key = ''K-2'', issue_id = [CHR 0x65, CHR 0xCC, CHR 0x81]\<rparr>]
     = mset [\<lparr>issue_key = ''K-2'', issue_id = [CHR 0x65, CHR 0xCC, CHR 0x81]\<rparr>,
             \<lparr>issue_key = ''K-1'', issue_id = [CHR 0xC3, CHR 0xA9]\<rparr>]
   \<and> countTransitionsByUser (\<lambda>i s n. Inr
       \<lparr>log_total = Some 1, log_values = Some [\<lparr>author = Some
       \<lparr>displayName = Some i, name = None, accountId = None\<rparr>,
       created = [], items = Some [\<lparr>field = ''status'', fromString = None, toString = Own (Some ''Done'')\<rparr>]\<rparr>]\<rparr>)
       \<lparr>js_getTime = (\<lambda>s. None), js_toLowerCase = toLowerCase, js_trim = trim,
        js_notAFunction = ''(intermediate value).trim is not a function''\<rparr>
       (\<lambda>a b :: string.
          if (if a = [CHR 0x65, CHR 0xCC, CHR 0x81] then [CHR 0xC3, CHR 0xA9] else a)
               < (if b = [CHR 0x65, CHR 0xCC, CHR 0x81] then [CHR 0xC3, CHR 0xA9] else b) then - 1
          else if (if a = [CHR 0x65, CHR 0xCC, CHR 0x81] then [CHR 0xC3, CHR 0xA9] else a)
               = (if b = [CHR 0x65, CHR 0xCC, CHR 0x81] then [CHR 0xC3, CHR 0xA9] else b) then 0
          else 1)
        \<lparr>fromName = None, toName = None, since = None, until = None, notFromName = None, notToName = None\<rparr>
        [\<lparr>issue_key = ''K-1'', issue_id = [CHR 0xC3, CHR 0xA9]\<rparr>,
         \<lparr>issue_key = ''K-2'', issue_id = [CHR 0x65, CHR 0xCC, CHR 0x81]\<rparr>] []
      = Some (Inr [\<lparr>user = [CHR 0xC3, CHR 0xA9], countN = 1\<rparr>,
                   \<lparr>user = [CHR 0x65, CHR 0xCC, CHR 0x81], countN = 1\<rparr>],
              [ChangelogCall [CHR 0xC3, CHR 0xA9] 0 100,
               ChangelogCall [CHR 0x65, CHR 0xCC, CHR 0x81] 0 100])
   \<and> countTransitionsByUser (\<lambda>i s n. Inr
       \<lparr>log_total = Some 1, log_values = Some [\<lparr>author = Some
       \<lparr>displayName = Some i, name = None, accountId = None\<rparr>,
       created = [], items = Some [\<lparr>field = ''status'', fromString = None, toString = Own (Some ''Done'')\<rparr>]\<rparr>]\<rparr>)
       \<lparr>js_getTime = (\<lambda>s. None), js_toLowerCase = toLowerCase, js_trim = trim,
        js_notAFunction = ''(intermediate value).trim is not a function''\<rparr>
       (\<lambda>a b :: string.
          if (if a = [CHR 0x65, CHR 0xCC, CHR 0x81] then [CHR 0xC3, CHR 0xA9] else a)
               < (if b = [CHR 0x65, CHR 0xCC, CHR 0x81] then [CHR 0xC3, CHR 0xA9] else b) then - 1
          else if (if a = [CHR 0x65, CHR 0xCC, CHR 0x81] then [CHR 0xC3, CHR 0xA9] else a)
               = (if b = [CHR 0x65, CHR 0xCC, CHR 0x81] then [CHR 0xC3, CHR 0xA9] else b) then 0
          else 1)
        \<lparr>fromName = None, toName = None, since = None, until = None, notFromName = None, notToName = None\<rparr>
        [\<lparr>issue_key = ''K-2'', issue_id = [CHR 0x65, CHR 0xCC, CHR 0x81]\<rparr>,
         \<lparr>issue_key = ''K-1'', issue_id = [CHR 0xC3, CHR 0xA9]\<rparr>] []
      = Some (Inr [\<lparr>user = [CHR 0x65, CHR 0xCC, CHR 0x81], countN = 1\<rparr>,
                   \<lparr>user = [CHR 0xC3, CHR 0xA9], countN = 1\<rparr>],
              [ChangelogCall [CHR 0x65, CHR 0xCC, CHR 0x81] 0 100,
               ChangelogCall [CHR 0xC3, CHR 0xA9] 0 100])"
proof (intro conjI)
  show "consistent (\<lambda>a b :: string.
       if (if a = [CHR 0x65, CHR 0xCC, CHR 0x81] then [CHR 0xC3, CHR 0xA9] else a)
            < (if b = [CHR 0x65, CHR 0xCC, CHR 0x81] then [CHR 0xC3, CHR 0xA9] else b) then - 1
       else if (if a = [CHR 0x65, CHR 0xCC, CHR 0x81] then [CHR 0xC3, CHR 0xA9] else a)
            = (if b = [CHR 0x65, CHR 0xCC, CHR 0x81] then [CHR 0xC3, CHR 0xA9] else b) then 0
       else 1)"
    by (rule key_consistent)
qed (simp, code_simp, code_simp)


section \<open>Query resolution\<close>


lemma trim_blank: "list_all is_space s \<Longrightarrow> trim s = []"
  by (auto simp: trim_def list_all_iff dest: set_dropWhileD)

lemma trim_Nil: "trim [] = []"
  by (simp add: trim_def)





lemma cleanEnv_blank: "list_all is_space s \<Longrightarrow> cleanEnv (Some s) = []"
  by (simp add: cleanEnv_def trim_blank trim_Nil startsWith_def)




section \<open>Result cache\<close>

text \<open>
  C6. After \<open>cacheSet(K, V, T)\<close> at time \<open>t0\<close> with a positive \<open>T\<close>, a \<open>cacheGet(K)\<close> at a
  time up to \<open>t0 + T\<close> returns \<open>V\<close> and leaves the cache as it is; a \<open>cacheGet(K)\<close> after
  \<open>t0 + T\<close> returns absent and removes the entry, so that later reads are absent as well.
  With a TTL of zero or none the entry never expires. Times are \<open>Date.now()\<close>, so not
  negative.
\<close>

theorem cache_round_trip:
  "(0 < T \<and> t1 \<le> t0 + T \<longrightarrow>
      cacheGet (cacheSet CACHE t0 K V (Some T)) t1 K = (Some V, cacheSet CACHE t0 K V (Some T)))
   \<and> (0 < T \<and> 0 \<le> t0 \<and> t0 + T < t1 \<longrightarrow>
      cacheGet (cacheSet CACHE t0 K V (Some T)) t1 K = (None, (cacheSet CACHE t0 K V (Some T))(K := None))
      \<and> fst (cacheGet (snd (cacheGet (cacheSet CACHE t0 K V (Some T)) t1 K)) t2 K) = None)
   \<and> (ttl = None \<or> ttl = Some 0 \<longrightarrow>
      cacheGet (cacheSet CACHE t0 K V ttl) t1 K = (Some V, cacheSet CACHE t0 K V ttl))"
  by (auto simp: cacheGet_def cacheSet_def)

theorem cache_round_trip_witness:
  "(0 :: int) < 60000 \<and> (1000 :: int) + 59999 \<le> 1000 + 60000
   \<and> cacheGet (cacheSet
       (\<lambda>k. None) 1000 ''key'' ''payload'' (Some 60000)) (1000 + 59999) ''key''
       = (Some ''payload'', cacheSet (\<lambda>k. None) 1000 ''key'' ''payload'' (Some 60000))
   \<and> (0 :: int) \<le> 1000 \<and> (1000 :: int) + 60000 < 1000 + 60001
   \<and> cacheGet (cacheSet
       (\<lambda>k. None) 1000 ''key'' ''payload'' (Some 60000)) (1000 + 60001) ''key''
       = (None, (cacheSet
           (\<lambda>k. None) 1000 ''key'' ''payload'' (Some 60000))(''key'' := None))
   \<and> cacheGet (cacheSet (\<lambda>k. None) 1000 ''key'' ''payload'' (Some 0)) 999999999 ''key''
       = (Some ''payload'', cacheSet (\<lambda>k. None) 1000 ''key'' ''payload'' (Some 0))
   \<and> cacheGet (cacheSet (\<lambda>k. None) 1000 ''key'' ''payload'' None) 999999999 ''key''
       = (Some ''payload'', cacheSet (\<lambda>k. None) 1000 ''key'' ''payload'' None)"
  using cache_round_trip [of 60000 "1000 + 59999" 1000 "\<lambda>k. None" "''key''" "''payload''" 0 "Some 0" ]
    cache_round_trip [of 60000 "1000 + 60001" 1000 "\<lambda>k. None" "''key''" "''payload''" 0 "None"]
    cache_round_trip [of 60000 "999999999" 1000 "\<lambda>k. None" "''key''" "''payload''" 0 "Some 0"]
    cache_round_trip [of 60000 "999999999" 1000 "\<lambda>k. None" "''key''" "''payload''" 0 "None"]
  by simp

section \<open>Request validation\<close>

lemma toJql_blank: "list_all is_space s \<Longrightarrow> toJql parseURL (Some s) = []"
  by (simp add: toJql_def cleanEnv_blank)

text \<open>
  C9. When the \<open>filter\<close> parameter is missing, empty or blank (white space only), both
  handlers answer 400 with an error body, leave the cache as it is and make no remote
  call: neither the search nor a changelog request.
\<close>

theorem blank_filter_rejected:
  "(q_filter q = None \<or> (\<exists>s. q_filter q = Some s \<and> list_all is_space s)) \<longrightarrow>
     (\<exists>msg. handleMovers P now1 now2 CACHE q
              = Some (\<lparr>statusCode = 400, body = ErrorBody msg\<rparr>, CACHE, []))
   \<and> (\<exists>msg. handler P now1 now2 CACHE q
              = Some (\<lparr>statusCode = 400, body = ErrorBody msg\<rparr>, CACHE, []))"
proof
  assume "q_filter q = None \<or> (\<exists>s. q_filter q = Some s \<and> list_all is_space s)"
  then have j: "truthy (q_filter q) \<longrightarrow> toJql (rt_parseURL P) (q_filter q) = []"
    by (auto simp: toJql_blank truthy_def)
  show "(\<exists>msg. handleMovers P now1 now2 CACHE q
              = Some (\<lparr>statusCode = 400, body = ErrorBody msg\<rparr>, CACHE, []))
   \<and> (\<exists>msg. handler P now1 now2 CACHE q
              = Some (\<lparr>statusCode = 400, body = ErrorBody msg\<rparr>, CACHE, []))"
  proof (cases "truthy (q_filter q)")
    case False
    then show ?thesis by (simp add: handleMovers_def handler_def Let_def)
  next
    case True
    then have "toJql (rt_parseURL P) (q_filter q) = []" using j by simp
    then show ?thesis using True by (simp add: handleMovers_def handler_def Let_def)
  qed
qed

theorem blank_filter_rejected_witness:
  "list_all is_space ''   ''
   \<and> (\<exists>msg. handleMovers \<lparr>rt_search =
       (\<lambda>j m. Inl (Error ''unreachable'')), rt_changelog =
       (\<lambda>i s n. Inl (Error ''unreachable'')), rt_js =
       \<lparr>js_getTime = (\<lambda>s. None), js_toLowerCase = toLowerCase, js_trim = trim,
        js_notAFunction = ''(intermediate value).trim is not a function''\<rparr>, rt_localeCompare = (\<lambda>a b. 0), rt_parseURL =
       (\<lambda>u. None)\<rparr> 0 0 (\<lambda>k. None)
        \<lparr>q_filter = Some ''   '', q_from = None, q_to = None, q_notFrom = None, q_notTo = None, q_since = None, q_until = None, q_limit = None, q_maxIssues = None, q_concurrency = None, q_ttl = None, q_discover = None\<rparr>
      = Some (\<lparr>statusCode = 400, body = ErrorBody msg\<rparr>, (\<lambda>k. None), []))
   \<and> (\<exists>msg. handler \<lparr>rt_search =
       (\<lambda>j m. Inl (Error ''unreachable'')), rt_changelog =
       (\<lambda>i s n. Inl (Error ''unreachable'')), rt_js =
       \<lparr>js_getTime = (\<lambda>s. None), js_toLowerCase = toLowerCase, js_trim = trim,
        js_notAFunction = ''(intermediate value).trim is not a function''\<rparr>, rt_localeCompare = (\<lambda>a b. 0), rt_parseURL =
       (\<lambda>u. None)\<rparr> 0 0 (\<lambda>k. None)
        \<lparr>q_filter = Some ''   '', q_from = None, q_to = None, q_notFrom = None, q_notTo = None, q_since = None, q_until = None, q_limit = None, q_maxIssues = None, q_concurrency = None, q_ttl = None, q_discover = None\<rparr>
      = Some (\<lparr>statusCode = 400, body = ErrorBody msg\<rparr>, (\<lambda>k. None), []))"
proof -
  have b: "list_all is_space ''   ''" by code_simp
  then have "q_filter
      \<lparr>q_filter = Some ''   '', q_from = None, q_to = None, q_notFrom = None, q_notTo = None, q_since = None, q_until = None, q_limit = None, q_maxIssues = None, q_concurrency = None, q_ttl = None, q_discover = None\<rparr> = None \<or> (\<exists>s. q_filter
      \<lparr>q_filter = Some ''   '', q_from = None, q_to = None, q_notFrom = None, q_notTo = None, q_since = None, q_until = None, q_limit = None, q_maxIssues = None, q_concurrency = None, q_ttl = None, q_discover = None\<rparr> = Some s \<and> list_all is_space s)"
    by simp
  then show ?thesis
    using b blank_filter_rejected [of "\<lparr>q_filter = Some ''   '', q_from = None, q_to = None, q_notFrom = None, q_notTo = None, q_since = None, q_until = None, q_limit = None, q_maxIssues = None, q_concurrency = None, q_ttl = None, q_discover = None\<rparr>" "\<lparr>rt_search =
        (\<lambda>j m. Inl (Error ''unreachable'')), rt_changelog =
        (\<lambda>i s n. Inl (Error ''unreachable'')), rt_js =
       \<lparr>js_getTime = (\<lambda>s. None), js_toLowerCase = toLowerCase, js_trim = trim,
        js_notAFunction = ''(intermediate value).trim is not a function''\<rparr>, rt_localeCompare = (\<lambda>a b. 0), rt_parseURL =
        (\<lambda>u. None)\<rparr>" 0 0 "\<lambda>k. None"]
    by blast
qed

section \<open>Numeric parameters\<close>

lemma queryNumber_default:
  assumes "truthy raw" "parseInt (or_empty raw) = None \<or> parseInt (or_empty raw) = Some 0" "d \<le> cap"
  shows "queryNumber raw dflt d cap = d"
  using assms by (auto simp: queryNumber_def)

lemma queryNumber_value:
  assumes "truthy raw" "parseInt (or_empty raw) = Some n" "n \<noteq> 0"
  shows "queryNumber raw dflt d cap = min n cap"
  using assms by (simp add: queryNumber_def)

text \<open>
  C10. When a numeric parameter (\<open>limit\<close>, \<open>maxIssues\<close>, \<open>ttl\<close>, \<open>concurrency\<close>) is supplied
  and parses to 0 or to \<open>NaN\<close>, the handler uses the default: 20, 150, 60 seconds (60000 ms)
  and 0. A supplied value that parses to a non-zero number is used, cut at the upper bound
  only (100, 1000, 600 seconds, 20): a negative value passes through.
\<close>

theorem numeric_parameter_defaults:
  "(truthy (q_limit q) \<and> (parseInt (or_empty (q_limit q)) = None \<or> parseInt (or_empty (q_limit q)) = Some 0)
      \<longrightarrow> limit_of q = 20)
   \<and> (truthy (q_maxIssues q) \<and> (parseInt (or_empty (q_maxIssues q)) = None \<or> parseInt (or_empty (q_maxIssues q)) = Some 0)
      \<longrightarrow> maxIssues_of q = 150)
   \<and> (truthy (q_ttl q) \<and> (parseInt (or_empty (q_ttl q)) = None \<or> parseInt (or_empty (q_ttl q)) = Some 0)
      \<longrightarrow> ttl_of q = 60 * 1000)
   \<and> (truthy (q_concurrency q) \<and> (parseInt (or_empty (q_concurrency q)) = None \<or> parseInt (or_empty (q_concurrency q)) = Some 0)
      \<longrightarrow> concurrencyParam_of q = 0)
   \<and> (truthy (q_limit q) \<and> parseInt (or_empty (q_limit q)) = Some n \<and> n \<noteq> 0
      \<longrightarrow> limit_of q = min n 100 \<and> (n < 0 \<longrightarrow> limit_of q = n))
   \<and> (truthy (q_maxIssues q) \<and> parseInt (or_empty (q_maxIssues q)) = Some n \<and> n \<noteq> 0
      \<longrightarrow> maxIssues_of q = min n 1000 \<and> (n < 0 \<longrightarrow> maxIssues_of q = n))
   \<and> (truthy (q_ttl q) \<and> parseInt (or_empty (q_ttl q)) = Some n \<and> n \<noteq> 0
      \<longrightarrow> ttl_of q = min n 600 * 1000 \<and> (n < 0 \<longrightarrow> ttl_of q = n * 1000))
   \<and> (truthy (q_concurrency q) \<and> parseInt (or_empty (q_concurrency q)) = Some n \<and> n \<noteq> 0
      \<longrightarrow> concurrencyParam_of q = min n 20 \<and> (n < 0 \<longrightarrow> concurrencyParam_of q = n))"
  by (auto simp: limit_of_def maxIssues_of_def ttl_of_def concurrencyParam_of_def
      queryNumber_default queryNumber_value)

theorem numeric_parameter_defaults_witness:
  "truthy (Some ''0'') \<and> parseInt ''0'' = Some 0
   \<and> truthy (Some ''abc'') \<and> parseInt ''abc'' = None
   \<and> truthy (Some ''-3'') \<and> parseInt ''-3'' = Some (- 3)
   \<and> limit_of
       \<lparr>q_filter = Some ''10'', q_from = None, q_to = None, q_notFrom = None, q_notTo = None, q_since = None, q_until = None, q_limit = Some ''0'', q_maxIssues = Some ''abc'', q_concurrency = Some ''-3'', q_ttl = Some ''0'', q_discover = None\<rparr> = 20
   \<and> maxIssues_of
       \<lparr>q_filter = Some ''10'', q_from = None, q_to = None, q_notFrom = None, q_notTo = None, q_since = None, q_until = None, q_limit = Some ''0'', q_maxIssues = Some ''abc'', q_concurrency = Some ''-3'', q_ttl = Some ''0'', q_discover = None\<rparr> = 150
   \<and> ttl_of
       \<lparr>q_filter = Some ''10'', q_from = None, q_to = None, q_notFrom = None, q_notTo = None, q_since = None, q_until = None, q_limit = Some ''0'', q_maxIssues = Some ''abc'', q_concurrency = Some ''-3'', q_ttl = Some ''0'', q_discover = None\<rparr> = 60000
   \<and> concurrencyParam_of
       \<lparr>q_filter = Some ''10'', q_from = None, q_to = None, q_notFrom = None, q_notTo = None, q_since = None, q_until = None, q_limit = Some ''0'', q_maxIssues = Some ''abc'', q_concurrency = Some ''-3'', q_ttl = Some ''0'', q_discover = None\<rparr> = - 3"
proof -
  have p: "parseInt ''0'' = Some 0" "parseInt ''abc'' = None" "parseInt ''-3'' = Some (- 3)"
    by code_simp+
  have t: "truthy (Some ''0'')" "truthy (Some ''abc'')" "truthy (Some ''-3'')"
    by (simp_all add: truthy_def)
  note T = numeric_parameter_defaults [of "\<lparr>q_filter = Some ''10'', q_from = None, q_to = None, q_notFrom = None, q_notTo = None, q_since = None, q_until = None, q_limit = Some ''0'', q_maxIssues = Some ''abc'', q_concurrency = Some ''-3'', q_ttl = Some ''0'', q_discover = None\<rparr>" "- 3"]
  have 1: "limit_of
      \<lparr>q_filter = Some ''10'', q_from = None, q_to = None, q_notFrom = None, q_notTo = None, q_since = None, q_until = None, q_limit = Some ''0'', q_maxIssues = Some ''abc'', q_concurrency = Some ''-3'', q_ttl = Some ''0'', q_discover = None\<rparr> = 20" using T p t by (simp add: or_empty_def)
  have 2: "maxIssues_of
      \<lparr>q_filter = Some ''10'', q_from = None, q_to = None, q_notFrom = None, q_notTo = None, q_since = None, q_until = None, q_limit = Some ''0'', q_maxIssues = Some ''abc'', q_concurrency = Some ''-3'', q_ttl = Some ''0'', q_discover = None\<rparr> = 150" using T p t by (simp add: or_empty_def)
  have 3: "ttl_of
      \<lparr>q_filter = Some ''10'', q_from = None, q_to = None, q_notFrom = None, q_notTo = None, q_since = None, q_until = None, q_limit = Some ''0'', q_maxIssues = Some ''abc'', q_concurrency = Some ''-3'', q_ttl = Some ''0'', q_discover = None\<rparr> = 60000" using T p t by (simp add: or_empty_def)
  have 4: "concurrencyParam_of
      \<lparr>q_filter = Some ''10'', q_from = None, q_to = None, q_notFrom = None, q_notTo = None, q_since = None, q_until = None, q_limit = Some ''0'', q_maxIssues = Some ''abc'', q_concurrency = Some ''-3'', q_ttl = Some ''0'', q_discover = None\<rparr> = - 3" using T p t by (simp add: or_empty_def)
  show ?thesis using p t 1 2 3 4 by (intro conjI)
qed

section \<open>Termination of the pagination\<close>

lemma processIssue_loop_returns:
  assumes bound: "\<And>s page. F (issue_id iss) s 100 = Inr page \<Longrightarrow>
                    (case log_total page of None \<Rightarrow> 0 | Some t \<Rightarrow> t) \<le> T"
  shows "\<exists>r. processIssue_loop F G c iss s st = Some r"
proof (induction "nat (T - s)" arbitrary: s st rule: less_induct)
  case less
  show ?case
  proof (cases "F (issue_id iss) s 100")
    case (Inl e)
    then show ?thesis
      using processIssue_loop_error[where fetchChangelog = F and iss = iss and startAt = s and e = e]
      by simp
  next
    case (Inr page)
    let ?hs0 = "case log_values page of None \<Rightarrow> [] | Some hs \<Rightarrow> hs"
    let ?tot = "case log_total page of None \<Rightarrow> 0 | Some t \<Rightarrow> t"
    show ?thesis
    proof (cases "for_of (process_history G c) (counts st) ?hs0")
      case (Inl e)
      show ?thesis
        using processIssue_loop_throw[where fetchChangelog = F and iss = iss and startAt = s
            and page = page, OF Inr Inl]
        by simp
    next
      case good: (Inr m')
      show ?thesis
      proof (cases "length ?hs0 = 0 \<or> \<not> s + int (length ?hs0) < ?tot")
        case True
        then show ?thesis
          using processIssue_loop_stop[where fetchChangelog = F and iss = iss and startAt = s
              and page = page, OF Inr good True]
          by simp
      next
        case False
        then have ne: "length ?hs0 \<noteq> 0" and lt: "s + int (length ?hs0) < ?tot" by auto
        have "?tot \<le> T" using bound[OF Inr] .
        then have "nat (T - (s + int (length ?hs0))) < nat (T - s)"
          using ne lt by linarith
        from less[OF this] show ?thesis
          using processIssue_loop_continue[where fetchChangelog = F and iss = iss
              and startAt = s and page = page, OF Inr good ne lt]
          by simp
      qed
    qed
  qed
qed

lemma processIssue_loop_diverges:
  assumes "processIssue_loop F G c iss s st = Some y"
  shows "\<not> (\<forall>i s n. \<exists>h. F i s n = Inr
      \<lparr>log_total = Some (s + 2), log_values = Some [h]\<rparr>
        \<and> (\<forall>m. \<exists>m'. process_history G c m h = Inr m'))"
proof (rule processIssue_loop.raw_induct[where P = "\<lambda>F G c iss s st y.
     \<not> (\<forall>i s n. \<exists>h. F i s n = Inr
         \<lparr>log_total = Some (s + 2), log_values = Some [h]\<rparr>
           \<and> (\<forall>m. \<exists>m'. process_history G c m h = Inr m'))", OF _ assms],
    goal_cases)
  case (1 f F G c iss s st y)
  note IH = 1(1) and bdy = 1(2)
  show ?case
  proof
    assume grow: "\<forall>i s n. \<exists>h. F i s n = Inr
        \<lparr>log_total = Some (s + 2), log_values = Some [h]\<rparr>
          \<and> (\<forall>m. \<exists>m'. process_history G c m h = Inr m')"
    then obtain h where h: "F (issue_id iss) s 100 = Inr
        \<lparr>log_total = Some (s + 2), log_values = Some [h]\<rparr>"
        "\<forall>m. \<exists>m'. process_history G c m h = Inr m'"
      by blast
    obtain m' where m': "process_history G c (counts st) h = Inr m'"
      using h(2) by blast
    have "\<exists>st'. f F G c iss (s + 1) st' = Some y"
      using bdy h(1) m' by (auto simp: Let_def)
    then show False using IH grow by blast
  qed
qed

text \<open>
  C8 (as amended). Pagination of an issue starts at offset 0 with page size 100. A page
  without events ends it, also when the offset has not reached the reported total; a
  page with events advances the offset by their number, and the loop goes on exactly while
  the new offset is below the total reported with that page (an exception in the loop
  over the events of the page ends the run at once). When the reported totals of an issue
  are bounded (in particular when the total does not change), the loop returns, whatever
  the pages hold and also when a fetch fails.
\<close>

theorem pagination_terminates:
  "processIssue F G c iss st = processIssue_loop F G c iss 0 st
   \<and> (F (issue_id iss) s 100 = Inr page \<and> (case log_values page of None \<Rightarrow> [] | Some hs \<Rightarrow> hs) = []
       \<longrightarrow> processIssue_loop F G c iss s st
             = Some (None, st\<lparr>calls := calls st @ [ChangelogCall (issue_id iss) s 100]\<rparr>))
   \<and> (F (issue_id iss) s 100 = Inr page \<and> (case log_values page of None \<Rightarrow> [] | Some hs \<Rightarrow> hs) \<noteq> []
       \<longrightarrow> processIssue_loop F G c iss s st
             = (case for_of (process_history G c) (counts st)
                       (case log_values page of None \<Rightarrow> [] | Some hs \<Rightarrow> hs) of
                  Inl e \<Rightarrow>
                    Some (Some e, st\<lparr>calls := calls st @ [ChangelogCall (issue_id iss) s 100]\<rparr>)
                | Inr m' \<Rightarrow>
                    (let st' = st\<lparr>calls := calls st @ [ChangelogCall (issue_id iss) s 100],
                                  counts := m'\<rparr>;
                         s' = s + int (length (case log_values page of None \<Rightarrow> [] | Some hs \<Rightarrow> hs))
                     in if s' < (case log_total page of None \<Rightarrow> 0 | Some t \<Rightarrow> t)
                        then processIssue_loop F G c iss s' st' else Some (None, st'))))
   \<and> ((\<forall>s page. F (issue_id iss) s 100 = Inr page \<longrightarrow> (case log_total page of None \<Rightarrow> 0 | Some t \<Rightarrow> t) \<le> T)
       \<longrightarrow> (\<exists>r. processIssue F G c iss st = Some r))"
proof (intro conjI impI)
  show "processIssue F G c iss st = processIssue_loop F G c iss 0 st"
    by (simp add: processIssue_def)
next
  assume "F (issue_id iss) s 100 = Inr page \<and> (case log_values page of None \<Rightarrow> [] | Some hs \<Rightarrow> hs) = []"
  then show "processIssue_loop F G c iss s st
             = Some (None, st\<lparr>calls := calls st @ [ChangelogCall (issue_id iss) s 100]\<rparr>)"
    using processIssue_loop_stop[where fetchChangelog = F and iss = iss and startAt = s and page = page
        and rt = G and c = c and st = st and m' = "counts st"]
    by simp
next
  assume a: "F (issue_id iss) s 100 = Inr page \<and> (case log_values page of None \<Rightarrow> [] | Some hs \<Rightarrow> hs) \<noteq> []"
  show "processIssue_loop F G c iss s st
             = (case for_of (process_history G c) (counts st)
                       (case log_values page of None \<Rightarrow> [] | Some hs \<Rightarrow> hs) of
                  Inl e \<Rightarrow>
                    Some (Some e, st\<lparr>calls := calls st @ [ChangelogCall (issue_id iss) s 100]\<rparr>)
                | Inr m' \<Rightarrow>
                    (let st' = st\<lparr>calls := calls st @ [ChangelogCall (issue_id iss) s 100],
                                  counts := m'\<rparr>;
                         s' = s + int (length (case log_values page of None \<Rightarrow> [] | Some hs \<Rightarrow> hs))
                     in if s' < (case log_total page of None \<Rightarrow> 0 | Some t \<Rightarrow> t)
                        then processIssue_loop F G c iss s' st' else Some (None, st')))"
    using a by (subst processIssue_loop.simps) (simp add: Let_def split: sum.splits)
next
  assume "\<forall>s page. F (issue_id iss) s 100 = Inr page \<longrightarrow> (case log_total page of None \<Rightarrow> 0 | Some t \<Rightarrow> t) \<le> T"
  then show "\<exists>r. processIssue F G c iss st = Some r"
    unfolding processIssue_def by (intro processIssue_loop_returns) blast
qed

theorem pagination_terminates_witness:
  "(\<lambda>(i :: string) (s :: int) (n :: int). if s = 0 then Inr
      \<lparr>log_total = Some 3, log_values = Some [\<lparr>author = None, created = [], items = Some [\<lparr>field = ''status'', fromString = None, toString = Own (Some ''Done'')\<rparr>]\<rparr>,
      \<lparr>author = None, created = [], items = Some [\<lparr>field = ''status'', fromString = None, toString = Own (Some ''Done'')\<rparr>]\<rparr>]\<rparr>
      else Inr \<lparr>log_total = Some 3, log_values = Some []\<rparr>) (issue_id
      \<lparr>issue_key = ''K-1'', issue_id = ''10001''\<rparr>) 2 100 = Inr
      \<lparr>log_total = Some 3, log_values = Some []\<rparr>
   \<and> (\<exists>r. processIssue (\<lambda>(i :: string) (s :: int) (n :: int). if s = 0 then Inr
       \<lparr>log_total = Some 3, log_values = Some [\<lparr>author = None, created = [], items = Some [\<lparr>field = ''status'', fromString = None, toString = Own (Some ''Done'')\<rparr>]\<rparr>,
       \<lparr>author = None, created = [], items = Some [\<lparr>field = ''status'', fromString = None, toString = Own (Some ''Done'')\<rparr>]\<rparr>]\<rparr>
       else Inr \<lparr>log_total = Some 3, log_values = Some []\<rparr>) \<lparr>js_getTime = (\<lambda>s. None), js_toLowerCase = toLowerCase, js_trim = trim,
       js_notAFunction = ''(intermediate value).trim is not a function''\<rparr>
       \<lparr>fromName = None, toName = None, since = None, until = None, notFromName = None, notToName = None\<rparr>
       \<lparr>issue_key = ''K-1'', issue_id = ''10001''\<rparr>
       \<lparr>counts = [], calls = []\<rparr> = Some r)
   \<and> processIssue (\<lambda>(i :: string) (s :: int) (n :: int). if s = 0 then Inr
       \<lparr>log_total = Some 3, log_values = Some [\<lparr>author = None, created = [], items = Some [\<lparr>field = ''status'', fromString = None, toString = Own (Some ''Done'')\<rparr>]\<rparr>,
       \<lparr>author = None, created = [], items = Some [\<lparr>field = ''status'', fromString = None, toString = Own (Some ''Done'')\<rparr>]\<rparr>]\<rparr>
       else Inr \<lparr>log_total = Some 3, log_values = Some []\<rparr>) \<lparr>js_getTime = (\<lambda>s. None), js_toLowerCase = toLowerCase, js_trim = trim,
       js_notAFunction = ''(intermediate value).trim is not a function''\<rparr>
       \<lparr>fromName = None, toName = None, since = None, until = None, notFromName = None, notToName = None\<rparr>
       \<lparr>issue_key = ''K-1'', issue_id = ''10001''\<rparr>
       \<lparr>counts = [], calls = []\<rparr>
       = Some (None, \<lparr>counts = [(''Unknown'', 2)],
                       calls = [ChangelogCall ''10001'' 0 100, ChangelogCall ''10001'' 2 100]\<rparr>)"
proof -
  let ?F = "(\<lambda>(i :: string) (s :: int) (n :: int). if s = 0 then Inr
      \<lparr>log_total = Some 3, log_values = Some [\<lparr>author = None, created = [], items = Some [\<lparr>field = ''status'', fromString = None, toString = Own (Some ''Done'')\<rparr>]\<rparr>,
      \<lparr>author = None, created = [], items = Some [\<lparr>field = ''status'', fromString = None, toString = Own (Some ''Done'')\<rparr>]\<rparr>]\<rparr>
      else Inr \<lparr>log_total = Some 3, log_values = Some []\<rparr>)"
  have b: "\<forall>s page. ?F (issue_id
      \<lparr>issue_key = ''K-1'', issue_id = ''10001''\<rparr>) s 100 = Inr page \<longrightarrow>
             (case log_total page of None \<Rightarrow> 0 | Some t \<Rightarrow> t) \<le> 3"
    by (auto split: if_splits)
  have 1: "\<exists>r. processIssue ?F \<lparr>js_getTime = (\<lambda>s. None), js_toLowerCase = toLowerCase, js_trim = trim,
       js_notAFunction = ''(intermediate value).trim is not a function''\<rparr>
      \<lparr>fromName = None, toName = None, since = None, until = None, notFromName = None, notToName = None\<rparr>
      \<lparr>issue_key = ''K-1'', issue_id = ''10001''\<rparr>
      \<lparr>counts = [], calls = []\<rparr> = Some r"
    using pagination_terminates [of ?F "\<lparr>js_getTime = (\<lambda>s. None), js_toLowerCase = toLowerCase, js_trim = trim,
       js_notAFunction = ''(intermediate value).trim is not a function''\<rparr>" "\<lparr>fromName = None, toName = None, since = None, until = None, notFromName = None, notToName = None\<rparr>" "\<lparr>issue_key = ''K-1'', issue_id = ''10001''\<rparr>" "\<lparr>counts = [], calls = []\<rparr>" 0 "\<lparr>log_total = None, log_values = None\<rparr>" 3] b
    by blast
  have 2: "processIssue ?F \<lparr>js_getTime = (\<lambda>s. None), js_toLowerCase = toLowerCase, js_trim = trim,
       js_notAFunction = ''(intermediate value).trim is not a function''\<rparr>
      \<lparr>fromName = None, toName = None, since = None, until = None, notFromName = None, notToName = None\<rparr>
      \<lparr>issue_key = ''K-1'', issue_id = ''10001''\<rparr>
      \<lparr>counts = [], calls = []\<rparr>
       = Some (None, \<lparr>counts = [(''Unknown'', 2)],
                       calls = [ChangelogCall ''10001'' 0 100, ChangelogCall ''10001'' 2 100]\<rparr>)"
    by code_simp
  have 3: "?F (issue_id \<lparr>issue_key = ''K-1'', issue_id = ''10001''\<rparr>) 2 100 = Inr
      \<lparr>log_total = Some 3, log_values = Some []\<rparr>"
    by simp
  show ?thesis using 1 2 3 by (intro conjI)
qed

theorem pagination_growing_total_never_returns:
  "processIssue (\<lambda>(i :: string) (s :: int) (n :: int). Inr
      \<lparr>log_total = Some (s + 2), log_values = Some [\<lparr>author = None, created = [], items = Some [\<lparr>field = ''status'', fromString = None, toString = Own (Some ''Done'')\<rparr>]\<rparr>]\<rparr>)
      \<lparr>js_getTime = (\<lambda>s. None), js_toLowerCase = toLowerCase, js_trim = trim,
       js_notAFunction = ''(intermediate value).trim is not a function''\<rparr>
      \<lparr>fromName = None, toName = None, since = None, until = None, notFromName = None, notToName = None\<rparr>
      \<lparr>issue_key = ''K-1'', issue_id = ''10001''\<rparr>
      \<lparr>counts = [], calls = []\<rparr> = None"
proof (cases "processIssue (\<lambda>(i :: string) (s :: int) (n :: int). Inr
    \<lparr>log_total = Some (s + 2), log_values = Some [\<lparr>author = None, created = [], items = Some [\<lparr>field = ''status'', fromString = None, toString = Own (Some ''Done'')\<rparr>]\<rparr>]\<rparr>)
    \<lparr>js_getTime = (\<lambda>s. None), js_toLowerCase = toLowerCase, js_trim = trim,
       js_notAFunction = ''(intermediate value).trim is not a function''\<rparr>
    \<lparr>fromName = None, toName = None, since = None, until = None, notFromName = None, notToName = None\<rparr>
    \<lparr>issue_key = ''K-1'', issue_id = ''10001''\<rparr>
    \<lparr>counts = [], calls = []\<rparr>")
  case None
  then show ?thesis .
next
  case (Some y)
  then have "processIssue_loop (\<lambda>(i :: string) (s :: int) (n :: int). Inr
      \<lparr>log_total = Some (s + 2), log_values = Some [\<lparr>author = None, created = [], items = Some [\<lparr>field = ''status'', fromString = None, toString = Own (Some ''Done'')\<rparr>]\<rparr>]\<rparr>)
      \<lparr>js_getTime = (\<lambda>s. None), js_toLowerCase = toLowerCase, js_trim = trim,
       js_notAFunction = ''(intermediate value).trim is not a function''\<rparr>
      \<lparr>fromName = None, toName = None, since = None, until = None, notFromName = None, notToName = None\<rparr>
      \<lparr>issue_key = ''K-1'', issue_id = ''10001''\<rparr> 0
      \<lparr>counts = [], calls = []\<rparr> = Some y"
    by (simp add: processIssue_def)
  moreover have "\<exists>m'. process_history
      \<lparr>js_getTime = (\<lambda>s. None), js_toLowerCase = toLowerCase, js_trim = trim,
       js_notAFunction = ''(intermediate value).trim is not a function''\<rparr>
      \<lparr>fromName = None, toName = None, since = None, until = None, notFromName = None, notToName = None\<rparr>
      m \<lparr>author = None, created = [], items = Some [\<lparr>field = ''status'', fromString = None, toString = Own (Some ''Done'')\<rparr>]\<rparr>
      = Inr m'" for m
    by (simp add: process_history_def window_ok_def truthy_def process_item_def Let_def)
  ultimately show ?thesis
    using processIssue_loop_diverges by blast
qed

section \<open>The concurrency bound\<close>

lemma concurrency_number:
  assumes "truthy (Some s)" "toNumber s = Some x"
  shows "concurrency toNumber (Some s) = Some (max 1 (min 10 x))"
  using assms by (simp add: concurrency_def Math_max_def Math_min_def or_empty_def)

lemma concurrency_default: "\<not> truthy env \<Longrightarrow> concurrency toNumber env = Some 5"
  by (simp add: concurrency_def Math_max_def Math_min_def)

lemma concurrency_range:
  assumes "concurrency toNumber env = Some r"
  shows "1 \<le> r \<and> r \<le> 10"
proof (cases "truthy env")
  case False
  then show ?thesis using assms by (simp add: concurrency_default)
next
  case True
  then show ?thesis
    using assms by (auto simp: concurrency_def Math_max_def Math_min_def split: option.splits)
qed

lemma length_remove1_Suc:
  assumes "x \<in> set xs"
  shows "length xs = Suc (length (remove1 x xs))"
proof -
  have "length xs \<noteq> 0" using assms by auto
  moreover have "length (remove1 x xs) = length xs - 1"
    using assms by (simp add: length_remove1)
  ultimately show ?thesis by linarith
qed

text \<open>
  With a limit that is a number \<open>r \<ge> 1\<close>, no more than \<open>r\<close> items are pending at any
  point of a run of \<open>mapLimit\<close> (for a whole number; fewer than \<open>r + 1\<close> in general).
\<close>

lemma mapLimit_step_inv:
  assumes "mapLimit_step (Some r) s s'"
    and "rat_of_nat (length (pending s)) < r + 1"
    and "phase s = Looping \<longrightarrow> rat_of_nat (length (pending s)) < r"
    and "phase s = AwaitRace \<and> settled s \<longrightarrow> rat_of_nat (length (pending s)) < r"
  shows "rat_of_nat (length (pending s')) < r + 1
       \<and> (phase s' = Looping \<longrightarrow> rat_of_nat (length (pending s')) < r)
       \<and> (phase s' = AwaitRace \<and> settled s' \<longrightarrow> rat_of_nat (length (pending s')) < r)"
  using assms
proof (cases rule: mapLimit_step.cases)
  case (start x xs)
  then show ?thesis using assms(2-4) by (auto simp: size_ge_def)
next
  case loop_end
  then show ?thesis using assms(2-4) by auto
next
  case (settle x)
  then have "length (pending s) = Suc (length (pending s'))"
    by (simp add: length_remove1_Suc)
  then obtain n where n: "length (pending s) = Suc n" "length (pending s') = n"
    by blast
  have "rat_of_nat n < r" using assms(2) n(1) by simp
  then show ?thesis using settle n by simp
next
  case (reject x)
  then have "length (pending s) = Suc (length (pending s'))"
    by (simp add: length_remove1_Suc)
  then obtain n where n: "length (pending s) = Suc n" "length (pending s') = n"
    by blast
  have "rat_of_nat n < r" using assms(2) n(1) by simp
  then show ?thesis using reject n by simp
next
  case resume
  then show ?thesis using assms(2-4) by auto
next
  case finish
  then show ?thesis using assms(2-4) by auto
qed

lemma mapLimit_bound:
  assumes "mapLimit_reaches (Some r) arr s" "1 \<le> r"
  shows "rat_of_nat (length (pending s)) < r + 1"
proof -
  have "(mapLimit_step (Some r))\<^sup>*\<^sup>* (pool_init arr) s"
    using assms(1) by (simp add: mapLimit_reaches_def)
  then have "rat_of_nat (length (pending s)) < r + 1
       \<and> (phase s = Looping \<longrightarrow> rat_of_nat (length (pending s)) < r)
       \<and> (phase s = AwaitRace \<and> settled s \<longrightarrow> rat_of_nat (length (pending s)) < r)"
  proof (induction rule: rtranclp_induct)
    case base
    then show ?case using assms(2) by (simp add: pool_init_def)
  next
    case (step y z)
    then show ?case using mapLimit_step_inv[of r y z] by blast
  qed
  then show ?thesis by blast
qed

lemma mapLimit_NaN_starts_all:
  "(mapLimit_step None)\<^sup>*\<^sup>*
     \<lparr>todo = xs, pending = ps, phase = Looping, settled = False\<rparr>
     \<lparr>todo = [], pending = ps @ xs, phase = Looping, settled = False\<rparr>"
proof (induction xs arbitrary: ps)
  case Nil
  then show ?case by simp
next
  case (Cons x xs)
  have "mapLimit_step None
      \<lparr>todo = x # xs, pending = ps, phase = Looping, settled = False\<rparr>
          (\<lparr>todo = x # xs, pending = ps, phase = Looping, settled = False\<rparr>
             \<lparr>todo := xs, pending := pending
                 \<lparr>todo = x # xs, pending = ps, phase = Looping, settled = False\<rparr> @ [x],
              phase := (if size_ge (length (pending
                  \<lparr>todo = x # xs, pending = ps, phase = Looping, settled = False\<rparr>) + 1) None
                        then AwaitRace else Looping),
              settled := False\<rparr>)"
    by (rule mapLimit_step.start) simp_all
  then have "mapLimit_step None
      \<lparr>todo = x # xs, pending = ps, phase = Looping, settled = False\<rparr>
          \<lparr>todo = xs, pending = ps @ [x], phase = Looping, settled = False\<rparr>"
    by (simp add: size_ge_def)
  then show ?case using Cons.IH[of "ps @ [x]"] by (simp add: converse_rtranclp_into_rtranclp)
qed

text \<open>
  C7. The bound on the items in flight is \<open>Math.max(1, Math.min(10, Number(...)))\<close>. When
  \<open>MOVERS_CONCURRENCY\<close> is set to a string that \<open>Number\<close> turns into \<open>NaN\<close>, the bound is
  \<open>NaN\<close>, not a number between 1 and 10: \<open>pending.size >= limit\<close> is
      then never true, the
  loop of \<open>mapLimit\<close> never waits, and all items of the array are pending at once,
  however many there are.
\<close>

theorem concurrency_NaN_unbounded:
  "truthy (Some s) \<and> toNumber s = None \<longrightarrow>
     concurrency toNumber (Some s) = None
     \<and> mapLimit_reaches (concurrency toNumber (Some s)) arr
          \<lparr>todo = [], pending = arr, phase = Looping, settled = False\<rparr>"
proof
  assume a: "truthy (Some s) \<and> toNumber s = None"
  then have n: "concurrency toNumber (Some s) = None"
    by (simp add: concurrency_def Math_max_def Math_min_def or_empty_def)
  have "mapLimit_reaches None arr
      \<lparr>todo = [], pending = arr, phase = Looping, settled = False\<rparr>"
    using mapLimit_NaN_starts_all[of arr "[]"] by (simp add: mapLimit_reaches_def pool_init_def)
  then show "concurrency toNumber (Some s) = None
     \<and> mapLimit_reaches (concurrency toNumber (Some s)) arr
          \<lparr>todo = [], pending = arr, phase = Looping, settled = False\<rparr>"
    using n by simp
qed

theorem concurrency_NaN_unbounded_witness:
  "truthy (Some ''abc'')
   \<and> concurrency (\<lambda>s. None) (Some ''abc'') = None
   \<and> mapLimit_reaches (concurrency (\<lambda>s. None) (Some ''abc''))
        [1, 2, 3, 4, 5, 6, 7, 8, 9, 10, 11 :: nat]
        \<lparr>todo = [], pending = [1, 2, 3, 4, 5, 6, 7, 8, 9, 10, 11], phase = Looping, settled = False\<rparr>
   \<and> length (pending
       \<lparr>todo = [], pending = [1, 2, 3, 4, 5, 6, 7, 8, 9, 10, 11 :: nat], phase = Looping, settled = False\<rparr>) = 11"
proof -
  have h: "truthy (Some ''abc'') \<and> (\<lambda>s :: string. None :: rat option) ''abc'' = None"
    by (simp add: truthy_def)
  note T = concurrency_NaN_unbounded [of "''abc''" "\<lambda>s. None" "[1, 2, 3, 4, 5, 6, 7, 8, 9, 10, 11 :: nat]",
      THEN mp, OF h]
  show ?thesis
  proof (intro conjI)
    show "truthy (Some ''abc'')" using h by simp
    show "concurrency (\<lambda>s. None) (Some ''abc'') = None" by (rule T[THEN conjunct1])
    show "mapLimit_reaches (concurrency (\<lambda>s. None) (Some ''abc''))
        [1, 2, 3, 4, 5, 6, 7, 8, 9, 10, 11 :: nat]
        \<lparr>todo = [], pending = [1, 2, 3, 4, 5, 6, 7, 8, 9, 10, 11], phase = Looping, settled = False\<rparr>"
      by (rule T[THEN conjunct2])
    show "length (pending
        \<lparr>todo = [], pending = [1, 2, 3, 4, 5, 6, 7, 8, 9, 10, 11 :: nat], phase = Looping, settled = False\<rparr>) = 11"
      by simp
  qed
qed

end
